theory Spec2Isabelle
  imports Main "HOL-Library.Sublist"
begin

section \<open>JavaScript array primitives used by the renderer\<close>

text \<open>\<open>Array.prototype.indexOf\<close>: the first index holding the element, or \<open>-1\<close>.\<close>

fun indexOf :: "'a list \<Rightarrow> 'a \<Rightarrow> int" where
  "indexOf [] x = - 1"
| "indexOf (y # ys) x =
     (if y = x then 0 else (if indexOf ys x < 0 then - 1 else indexOf ys x + 1))"

text \<open>\<open>xs.splice(start, 1)\<close>: a negative start counts from the end of the array
  (so \<open>splice(-1, 1)\<close> drops the last element), a start past the end removes nothing.\<close>

definition splice1 :: "int \<Rightarrow> 'a list \<Rightarrow> 'a list" where
  "splice1 start xs =
     (let n = int (length xs);
          s = (if start < 0 then max (n + start) 0 else min start n)
      in take (nat s) xs @ drop (nat s + 1) xs)"

section \<open>Data model of the renderer (src/unnamed/part\_001)\<close>

datatype error =
    AssertionFailed string
  | RenderError
  | TypeError
  | InfiniteRenderingInvalidation

type_synonym view = nat

text \<open>What the template VM does while a root renders is outside the repository. It is given
  per root as a script: the k-th run of the VM for that root (\<open>renderMain(...).sync()\<close> or
  \<open>result.rerender(...)\<close>) performs the k-th list of calls, and nothing once the script is
  used up. The calls are the ones the VM can make into the renderer that is rendering:
  \<open>appendTo\<close> of a new view, \<open>remove\<close> of a view, \<open>destroy\<close> of the renderer, a write to
  tracked state (which advances the revision of \<open>CURRENT_TAG\<close>), and a thrown exception.\<close>

datatype action =
    Attach view "action list list"
  | Detach view
  | DestroyRenderer
  | Dirty
  | Throw

type_synonym script = "action list list"

text \<open>The closures a \<open>RootState\<close> stores in \<open>render\<close>, by name: the initial render of the
  constructor, the \<open>rerender\<close> closure installed after it, and the warning-only function of
  \<open>errorLoopTransaction\<close>. \<open>Wrapped fn\<close> is the wrapper \<open>errorLoopTransaction\<close> returns when
  \<open>DEBUG\<close> holds, with the current value of its captured variable \<open>fn\<close>; \<open>Unwrapped fn\<close> is
  \<open>fn\<close> itself, which it returns otherwise; \<open>NoRender\<close> is \<open>undefined\<close>.\<close>

datatype closure = InitialRender | Rerender | WarnNoop

datatype render_slot = Wrapped closure | Unwrapped closure | NoRender

datatype render_result = RenderResult

record RootState =
  root :: "view option"
  result :: "render_result option"
  destroyed :: bool
  render :: render_slot
  script :: script

record Renderer =
  p_roots :: nat
  p_removedRoots :: "nat list"
  p_inRenderTransaction :: bool
  p_lastRevision :: int
  p_destroyed :: bool

datatype event = Rendered nat | Warned nat | DestroyedResult nat

datatype host_call = Schedule_actions_K | Join_K | Join_resolve nat | ScheduleOnce_render nat

text \<open>The process state. \<open>RootState\<close> objects, arrays and renderers live in stores indexed by
  address, since \<open>_renderRoots\<close> keeps a reference to the array \<open>this._roots\<close> held when it
  started while \<open>_clearAllRoots\<close> assigns a new array to the field. \<open>p_roots\<close> of a renderer is
  the address of its current \<open>_roots\<close> array. \<open>renderers\<close>, \<open>loops\<close> and
  \<open>renderSettledDeferred\<close> are the module variables of that name. \<open>revision\<close> is the value of
  \<open>CURRENT_TAG\<close>; \<open>DEBUG\<close> and \<open>RERENDER_LOOP_LIMIT\<close> are the imported constants.
  \<open>trace\<close> records the runs of the VM and the warnings, \<open>hostCalls\<close> the calls made to
  backburner.\<close>

record world =
  DEBUG :: bool
  RERENDER_LOOP_LIMIT :: int
  revision :: int
  rootStates :: "nat \<Rightarrow> RootState"
  nextRoot :: nat
  arrays :: "nat \<Rightarrow> nat list"
  nextArray :: nat
  rendererObjs :: "nat \<Rightarrow> Renderer"
  nextRenderer :: nat
  renderers :: "nat list"
  loops :: int
  renderSettledDeferred :: "nat option"
  nextDeferred :: nat
  currentRunLoop :: bool
  hostCalls :: "host_call list"
  trace :: "event list"

type_synonym outcome = "error \<times> world + world"

definition upd_renderer :: "nat \<Rightarrow> (Renderer \<Rightarrow> Renderer) \<Rightarrow> world \<Rightarrow> world" where
  "upd_renderer r f w = w\<lparr>rendererObjs := (rendererObjs w)(r := f (rendererObjs w r))\<rparr>"

definition upd_root :: "nat \<Rightarrow> (RootState \<Rightarrow> RootState) \<Rightarrow> world \<Rightarrow> world" where
  "upd_root rid f w = w\<lparr>rootStates := (rootStates w)(rid := f (rootStates w rid))\<rparr>"

definition upd_array :: "nat \<Rightarrow> (nat list \<Rightarrow> nat list) \<Rightarrow> world \<Rightarrow> world" where
  "upd_array a f w = w\<lparr>arrays := (arrays w)(a := f (arrays w a))\<rparr>"

definition roots_of :: "nat \<Rightarrow> world \<Rightarrow> nat list" where
  "roots_of r w = arrays w (p_roots (rendererObjs w r))"

section \<open>External contracts\<close>

text \<open>Modelled from the spec: \<open>valueForTag\<close> and \<open>validateTag\<close> of the validator library are
  not in the sources. \<open>valueForTag(CURRENT_TAG)\<close> reads the clock and
  \<open>validateTag(CURRENT_TAG, r)\<close> is the spec's \<open>is_valid_since(r)\<close>: true iff no tracked
  state has changed since revision \<open>r\<close> was captured.\<close>

definition valueForTag_CURRENT :: "world \<Rightarrow> int" where
  "valueForTag_CURRENT w = revision w"

definition validateTag_CURRENT :: "int \<Rightarrow> world \<Rightarrow> bool" where
  "validateTag_CURRENT snapshot w = (revision w \<le> snapshot)"

text \<open>Modelled from the spec: \<open>assert\<close> of \<open>@ember/debug\<close> is not in the sources; a failed
  assertion is a fatal error signalled to the caller.\<close>

definition assert :: "string \<Rightarrow> bool \<Rightarrow> 's \<Rightarrow> error \<times> 's + 's" where
  "assert desc test w = (if test then Inr w else Inl (AssertionFailed desc, w))"

section \<open>errorLoopTransaction and RootState\<close>

definition errorLoopTransaction :: "bool \<Rightarrow> closure \<Rightarrow> render_slot" where
  "errorLoopTransaction debug fn = (if debug then Wrapped fn else Unwrapped fn)"

definition new_RootState :: "bool \<Rightarrow> view \<Rightarrow> script \<Rightarrow> RootState" where
  "new_RootState debug v s =
     \<lparr>root = Some v, result = None, destroyed = False,
      render = errorLoopTransaction debug InitialRender, script = s\<rparr>"

definition isFor :: "RootState \<Rightarrow> view \<Rightarrow> bool" where
  "isFor rs possibleRoot = (root rs = Some possibleRoot)"

text \<open>\<open>RootState.destroy\<close>. It first reads \<open>this.runtime.env\<close>, and it sets \<open>runtime\<close> to
  \<open>undefined\<close>: on a root that is already destroyed the read is a \<open>TypeError\<close>. The model has
  no field for the runtime, which is gone exactly when \<open>destroyed\<close> is set. Destroying the
  render result is the VM's business; the model records that it happened.\<close>

definition root_destroy :: "nat \<Rightarrow> world \<Rightarrow> outcome" where
  "root_destroy rid w =
     (if destroyed (rootStates w rid) then Inl (TypeError, w)
      else
        (let res = result (rootStates w rid);
             w1 = upd_root rid (\<lambda>rs. rs\<lparr>destroyed := True, root := None, result := None,
                                        render := NoRender\<rparr>) w
         in Inr (if res \<noteq> None then w1\<lparr>trace := trace w1 @ [DestroyedResult rid]\<rparr> else w1)))"

section \<open>The registry\<close>

definition register :: "nat \<Rightarrow> world \<Rightarrow> outcome" where
  "register r w =
     (case assert ''Cannot register the same renderer twice'' (indexOf (renderers w) r = - 1) w of
        Inl e \<Rightarrow> Inl e
      | Inr w1 \<Rightarrow> Inr (w1\<lparr>renderers := renderers w1 @ [r]\<rparr>))"

definition deregister :: "nat \<Rightarrow> world \<Rightarrow> outcome" where
  "deregister r w =
     (let index = indexOf (renderers w) r in
      case assert ''Cannot deregister unknown unregistered renderer'' (index \<noteq> - 1) w of
        Inl e \<Rightarrow> Inl e
      | Inr w1 \<Rightarrow> Inr (w1\<lparr>renderers := splice1 index (renderers w1)\<rparr>))"

text \<open>The constructor of \<open>Renderer\<close>, as far as the scheduling state goes: two new empty
  arrays, no transaction, \<open>_lastRevision = -1\<close>, not destroyed.\<close>

definition new_Renderer :: "world \<Rightarrow> nat \<times> world" where
  "new_Renderer w =
     (nextRenderer w,
      w\<lparr>rendererObjs := (rendererObjs w)(nextRenderer w :=
           \<lparr>p_roots = nextArray w, p_removedRoots = [], p_inRenderTransaction = False,
            p_lastRevision = - 1, p_destroyed = False\<rparr>),
        nextRenderer := nextRenderer w + 1,
        arrays := (arrays w)(nextArray w := []),
        nextArray := nextArray w + 1\<rparr>)"

text \<open>The state of a process in which the module has just been loaded: no renderer, no
  root, an empty registry, \<open>loops = 0\<close>, no deferred.\<close>

definition initial_world :: "bool \<Rightarrow> int \<Rightarrow> int \<Rightarrow> bool \<Rightarrow> world" where
  "initial_world debug limit rev0 inRunLoop =
     \<lparr>DEBUG = debug, RERENDER_LOOP_LIMIT = limit, revision = rev0,
      rootStates = (\<lambda>_. \<lparr>root = None, result = None, destroyed = True, render = NoRender,
                            script = []\<rparr>),
      nextRoot = 0, arrays = (\<lambda>_. []), nextArray = 0,
      rendererObjs = (\<lambda>_. \<lparr>p_roots = 0, p_removedRoots = [], p_inRenderTransaction = False,
                              p_lastRevision = - 1, p_destroyed = True\<rparr>),
      nextRenderer = 0, renderers = [], loops = 0, renderSettledDeferred = None,
      nextDeferred = 0, currentRunLoop = inRunLoop, hostCalls = [], trace = []\<rparr>"

section \<open>Detaching and destroying\<close>

text \<open>\<open>cleanupRootFor\<close>: the \<open>while (i--)\<close> loop visits the indices from \<open>length - 1\<close> down
  to \<open>0\<close>; each matching root is destroyed and spliced out at once.\<close>

fun cleanup_loop :: "nat \<Rightarrow> view \<Rightarrow> nat \<Rightarrow> world \<Rightarrow> outcome" where
  "cleanup_loop a v 0 w = Inr w"
| "cleanup_loop a v (Suc i) w =
     (if isFor (rootStates w (arrays w a ! i)) v
      then (case root_destroy (arrays w a ! i) w of
              Inl e \<Rightarrow> Inl e
            | Inr w1 \<Rightarrow> cleanup_loop a v i (upd_array a (splice1 (int i)) w1))
      else cleanup_loop a v i w)"

definition cleanupRootFor :: "nat \<Rightarrow> view \<Rightarrow> world \<Rightarrow> outcome" where
  "cleanupRootFor r v w =
     (if p_destroyed (rendererObjs w r) then Inr w
      else (let a = p_roots (rendererObjs w r) in cleanup_loop a v (length (arrays w a)) w))"

text \<open>\<open>_clearAllRoots\<close>: every root of the current array is destroyed in turn, \<open>_removedRoots\<close>
  is emptied in place, the field \<open>_roots\<close> gets a new empty array (the old array object keeps
  its elements), and the renderer is deregistered if the old array was not empty.\<close>

fun destroy_each :: "nat list \<Rightarrow> world \<Rightarrow> outcome" where
  "destroy_each [] w = Inr w"
| "destroy_each (rid # rest) w =
     (case root_destroy rid w of Inl e \<Rightarrow> Inl e | Inr w1 \<Rightarrow> destroy_each rest w1)"

definition clearAllRoots :: "nat \<Rightarrow> world \<Rightarrow> outcome" where
  "clearAllRoots r w =
     (let roots = arrays w (p_roots (rendererObjs w r)) in
      case destroy_each roots w of
        Inl e \<Rightarrow> Inl e
      | Inr w1 \<Rightarrow>
          (let w2 = upd_renderer r (\<lambda>p. p\<lparr>p_removedRoots := [], p_roots := nextArray w1\<rparr>) w1;
               w3 = w2\<lparr>arrays := (arrays w2)(nextArray w2 := []), nextArray := nextArray w2 + 1\<rparr>
           in if length roots \<noteq> 0 then deregister r w3 else Inr w3))"

definition destroy :: "nat \<Rightarrow> world \<Rightarrow> outcome" where
  "destroy r w =
     (if p_destroyed (rendererObjs w r) then Inr w
      else clearAllRoots r (upd_renderer r (\<lambda>p. p\<lparr>p_destroyed := True\<rparr>) w))"

section \<open>Rendering one root\<close>

text \<open>\<open>_appendDefinition\<close> creates the \<open>RootState\<close>; \<open>_renderRoot\<close> then pushes it, registers the
  renderer when the array has length one, and calls \<open>_renderRootsTransaction\<close>.
  \<open>renderRoot_enqueue\<close> is \<open>_renderRoot\<close> up to that call.\<close>

definition alloc_RootState :: "view \<Rightarrow> script \<Rightarrow> world \<Rightarrow> nat \<times> world" where
  "alloc_RootState v s w =
     (nextRoot w,
      w\<lparr>rootStates := (rootStates w)(nextRoot w := new_RootState (DEBUG w) v s),
        nextRoot := nextRoot w + 1\<rparr>)"

definition renderRoot_enqueue :: "nat \<Rightarrow> nat \<Rightarrow> world \<Rightarrow> outcome" where
  "renderRoot_enqueue r rid w =
     (let a = p_roots (rendererObjs w r);
          w1 = upd_array a (\<lambda>xs. xs @ [rid]) w
      in if length (arrays w1 a) = 1 then register r w1 else Inr w1)"

text \<open>A call made by the VM while a root of renderer \<open>r\<close> renders. The renderer is inside its
  transaction then, so the \<open>_renderRootsTransaction\<close> that ends \<open>_renderRoot\<close> returns at its
  guard: an \<open>Attach\<close> is \<open>_appendDefinition\<close> up to that point.\<close>

fun exec_action :: "nat \<Rightarrow> action \<Rightarrow> world \<Rightarrow> outcome" where
  "exec_action r (Attach v s) w =
     (case alloc_RootState v s w of (rid, w1) \<Rightarrow> renderRoot_enqueue r rid w1)"
| "exec_action r (Detach v) w = cleanupRootFor r v w"
| "exec_action r DestroyRenderer w = destroy r w"
| "exec_action r Dirty w = Inr (w\<lparr>revision := revision w + 1\<rparr>)"
| "exec_action r Throw w = Inl (RenderError, w)"

fun exec_actions :: "nat \<Rightarrow> action list \<Rightarrow> world \<Rightarrow> outcome" where
  "exec_actions r [] w = Inr w"
| "exec_actions r (x # xs) w =
     (case exec_action r x w of Inl e \<Rightarrow> Inl e | Inr w1 \<Rightarrow> exec_actions r xs w1)"

text \<open>One run of the VM for root \<open>rid\<close>: it is recorded in the trace and performs the next
  list of calls of the root's script.\<close>

definition vm_run :: "nat \<Rightarrow> nat \<Rightarrow> world \<Rightarrow> outcome" where
  "vm_run r rid w =
     (let s = script (rootStates w rid);
          w1 = upd_root rid (\<lambda>rs. rs\<lparr>script := tl s\<rparr>) w;
          w2 = w1\<lparr>trace := trace w1 @ [Rendered rid]\<rparr>
      in exec_actions r (case s of [] \<Rightarrow> [] | acts # _ \<Rightarrow> acts) w2)"

fun run_closure :: "closure \<Rightarrow> nat \<Rightarrow> nat \<Rightarrow> world \<Rightarrow> outcome" where
  "run_closure InitialRender r rid w =
     (case vm_run r rid w of
        Inl e \<Rightarrow> Inl e
      | Inr w1 \<Rightarrow>
          Inr (upd_root rid (\<lambda>rs. rs\<lparr>result := Some RenderResult,
                                     render := errorLoopTransaction (DEBUG w1) Rerender\<rparr>) w1))"
| "run_closure Rerender r rid w = vm_run r rid w"
| "run_closure WarnNoop r rid w = Inr (w\<lparr>trace := trace w @ [Warned rid]\<rparr>)"

text \<open>\<open>root.render()\<close>. The wrapper of \<open>errorLoopTransaction\<close> runs \<open>fn\<close> and, when \<open>fn\<close> throws,
  assigns the warning-only function to \<open>fn\<close> before the exception leaves; the root sees that
  if its \<open>render\<close> field still holds this wrapper.\<close>

definition invoke_render :: "nat \<Rightarrow> nat \<Rightarrow> world \<Rightarrow> outcome" where
  "invoke_render r rid w =
     (case render (rootStates w rid) of
        NoRender \<Rightarrow> Inl (TypeError, w)
      | Unwrapped fn \<Rightarrow> run_closure fn r rid w
      | Wrapped fn \<Rightarrow>
          (case run_closure fn r rid w of
             Inr w1 \<Rightarrow> Inr w1
           | Inl (e, w1) \<Rightarrow>
               Inl (e, if render (rootStates w1 rid) = Wrapped fn
                       then upd_root rid (\<lambda>rs. rs\<lparr>render := Wrapped WarnNoop\<rparr>) w1
                       else w1)))"

section \<open>The transaction loop\<close>

definition push_removed :: "nat \<Rightarrow> nat \<Rightarrow> world \<Rightarrow> world" where
  "push_removed r rid w = upd_renderer r (\<lambda>p. p\<lparr>p_removedRoots := p_removedRoots p @ [rid]\<rparr>) w"

text \<open>The \<open>for\<close> loop of \<open>_renderRoots\<close> over the array at address \<open>a\<close>, from index \<open>i\<close>, with
  \<open>initialRootsLength\<close> fixed for the pass. The bound \<open>roots.length\<close> is read again at every
  step.\<close>

function pass_loop :: "nat \<Rightarrow> nat \<Rightarrow> nat \<Rightarrow> nat \<Rightarrow> world \<Rightarrow> outcome" where
  "pass_loop r a initialRootsLength i w =
     (if i < length (arrays w a) then
        (if destroyed (rootStates w (arrays w a ! i))
         then pass_loop r a initialRootsLength (i + 1) (push_removed r (arrays w a ! i) w)
         else if initialRootsLength \<le> i
         then pass_loop r a initialRootsLength (i + 1) w
         else (case invoke_render r (arrays w a ! i) w of
                 Inl e \<Rightarrow> Inl e
               | Inr w1 \<Rightarrow> pass_loop r a initialRootsLength (i + 1) w1))
      else Inr w)"
  by pat_completeness auto
termination
  by (relation "measures [\<lambda>(r, a, n, i, w). n - i, \<lambda>(r, a, n, i, w). length (arrays w a) - i]")
     (auto simp: push_removed_def upd_renderer_def)

declare pass_loop.simps [simp del]

definition commit_revision :: "nat \<Rightarrow> world \<Rightarrow> world" where
  "commit_revision r w = upd_renderer r (\<lambda>p. p\<lparr>p_lastRevision := valueForTag_CURRENT w\<rparr>) w"

text \<open>The \<open>do ... while\<close> loop. It need not end (a root may attach a new root at every
  render), so not returning is the value \<open>None\<close>.\<close>

partial_function (option) renderRoots_loop :: "nat \<Rightarrow> nat \<Rightarrow> world \<Rightarrow> outcome option" where
  "renderRoots_loop r a w =
     (case pass_loop r a (length (arrays w a)) 0 w of
        Inl e \<Rightarrow> Some (Inl e)
      | Inr w1 \<Rightarrow>
          (if length (arrays w a) < length (arrays (commit_revision r w1) a)
           then renderRoots_loop r a (commit_revision r w1)
           else Some (Inr (commit_revision r w1))))"

declare renderRoots_loop.simps [code]

text \<open>The compaction: \<open>removedRoots.pop()\<close> takes the last queued entry, \<open>indexOf\<close> finds it in
  the array the loop worked on, \<open>splice\<close> removes one element there.\<close>

fun compact_loop :: "nat list \<Rightarrow> nat list \<Rightarrow> nat list" where
  "compact_loop [] roots = roots"
| "compact_loop (rid # popped_later) roots =
     compact_loop popped_later (splice1 (indexOf roots rid) roots)"

definition compact :: "nat \<Rightarrow> nat \<Rightarrow> world \<Rightarrow> world" where
  "compact r a w =
     upd_renderer r (\<lambda>p. p\<lparr>p_removedRoots := []\<rparr>)
       (upd_array a (compact_loop (rev (p_removedRoots (rendererObjs w r)))) w)"

definition renderRoots :: "nat \<Rightarrow> world \<Rightarrow> outcome option" where
  "renderRoots r w =
     (let a = p_roots (rendererObjs w r) in
      case renderRoots_loop r a w of
        None \<Rightarrow> None
      | Some (Inl e) \<Rightarrow> Some (Inl e)
      | Some (Inr w1) \<Rightarrow>
          (let w2 = compact r a w1 in
           if length (roots_of r w2) = 0 then Some (deregister r w2) else Some (Inr w2)))"

definition renderRootsTransaction :: "nat \<Rightarrow> world \<Rightarrow> outcome option" where
  "renderRootsTransaction r w =
     (if p_inRenderTransaction (rendererObjs w r) then Some (Inr w)
      else
        (case renderRoots r (upd_renderer r (\<lambda>p. p\<lparr>p_inRenderTransaction := True\<rparr>) w) of
           None \<Rightarrow> None
         | Some (Inr w1) \<Rightarrow>
             Some (Inr (upd_renderer r (\<lambda>p. p\<lparr>p_inRenderTransaction := False\<rparr>) w1))
         | Some (Inl (e, w1)) \<Rightarrow>
             Some (Inl (e, upd_renderer r (\<lambda>p. p\<lparr>p_inRenderTransaction := False\<rparr>)
                             (commit_revision r w1)))))"

definition renderRoot :: "nat \<Rightarrow> nat \<Rightarrow> world \<Rightarrow> outcome option" where
  "renderRoot r rid w =
     (case renderRoot_enqueue r rid w of
        Inl e \<Rightarrow> Some (Inl e)
      | Inr w1 \<Rightarrow> renderRootsTransaction r w1)"

text \<open>\<open>appendTo\<close> and \<open>appendOutletView\<close>, through \<open>_appendDefinition\<close>; the new root's script
  stands for the view that is attached.\<close>

definition appendTo :: "nat \<Rightarrow> view \<Rightarrow> script \<Rightarrow> world \<Rightarrow> outcome option" where
  "appendTo r v s w = (case alloc_RootState v s w of (rid, w1) \<Rightarrow> renderRoot r rid w1)"

definition isValid :: "nat \<Rightarrow> world \<Rightarrow> bool" where
  "isValid r w =
     (p_destroyed (rendererObjs w r) \<or> length (roots_of r w) = 0
      \<or> validateTag_CURRENT (p_lastRevision (rendererObjs w r)) w)"

definition revalidate :: "nat \<Rightarrow> world \<Rightarrow> outcome option" where
  "revalidate r w = (if isValid r w then Some (Inr w) else renderRootsTransaction r w)"

section \<open>Run-loop hooks and the settle promise\<close>

definition scheduleRevalidate :: "nat \<Rightarrow> world \<Rightarrow> world" where
  "scheduleRevalidate r w = w\<lparr>hostCalls := hostCalls w @ [ScheduleOnce_render r]\<rparr>"

definition loopBegin :: "world \<Rightarrow> world" where
  "loopBegin w = fold scheduleRevalidate (renderers w) w"

text \<open>\<open>renderSettled\<close> returns the promise of the deferred; deferreds are told apart by a
  number.\<close>

definition renderSettled :: "world \<Rightarrow> nat \<times> world" where
  "renderSettled w =
     (case renderSettledDeferred w of
        Some d \<Rightarrow> (d, w)
      | None \<Rightarrow>
          (let w1 = w\<lparr>renderSettledDeferred := Some (nextDeferred w),
                      nextDeferred := nextDeferred w + 1\<rparr>
           in (nextDeferred w,
               if \<not> currentRunLoop w1
               then w1\<lparr>hostCalls := hostCalls w1 @ [Schedule_actions_K]\<rparr> else w1)))"

definition resolveRenderPromise :: "world \<Rightarrow> world" where
  "resolveRenderPromise w =
     (case renderSettledDeferred w of
        None \<Rightarrow> w
      | Some d \<Rightarrow> w\<lparr>renderSettledDeferred := None, hostCalls := hostCalls w @ [Join_resolve d]\<rparr>)"

text \<open>\<open>loopEnd\<close>: the \<open>for\<close> loop over \<open>renderers\<close> leaves the function at the first renderer
  that is not valid, and changes nothing before; the list argument is the part of the
  registry still to visit.\<close>

fun loopEnd_for :: "nat list \<Rightarrow> world \<Rightarrow> outcome" where
  "loopEnd_for [] w = Inr (resolveRenderPromise (w\<lparr>loops := 0\<rparr>))"
| "loopEnd_for (r # rest) w =
     (if \<not> isValid r w then
        (if RERENDER_LOOP_LIMIT w < loops w then
           (case destroy r (w\<lparr>loops := 0\<rparr>) of
              Inl e \<Rightarrow> Inl e
            | Inr w1 \<Rightarrow> Inl (InfiniteRenderingInvalidation, w1))
         else Inr (w\<lparr>loops := loops w + 1, hostCalls := hostCalls w @ [Join_K]\<rparr>))
      else loopEnd_for rest w)"

definition loopEnd :: "world \<Rightarrow> outcome" where
  "loopEnd w = loopEnd_for (renderers w) w"

section \<open>The definition resolver (src/packages/@ember/-internals/glimmer/lib/resolver.ts)\<close>

text \<open>Objects that are compared by identity (factories, classes, template factories,
  templates, owners, definitions) carry a number. \<open>f_class\<close> is the optional \<open>class\<close> of a
  \<open>Factory\<close> (src/unnamed/part\_000). An \<open>Owner\<close> is given by what it answers to
  \<open>factoryFor\<close>, \<open>lookup\<close> and \<open>hasRegistration\<close>; its answer depends on the name only, so
  asking twice gives the same object.\<close>

record Factory =
  f_id :: nat
  f_class :: "nat option"

record Owner =
  owner_id :: nat
  factoryFor :: "string \<Rightarrow> Factory option"
  lookup :: "string \<Rightarrow> nat option"
  hasRegistration :: "string \<Rightarrow> bool"

datatype manager = TEMPLATE_ONLY_COMPONENT_MANAGER | CURLY_COMPONENT_MANAGER | OtherManager nat

text \<open>What the resolver imports from the VM and the environment: \<open>getComponentTemplate\<close> and
  \<open>getInternalComponentManager\<close> on a class, the application of a template factory to an
  owner, \<open>ENV._TEMPLATE_ONLY_GLIMMER_COMPONENTS\<close>, the name \<open>P`component:-default`\<close>, and the
  two probes of \<open>_lookupHelper\<close> on a class.\<close>

record Imports =
  getComponentTemplate :: "nat \<Rightarrow> nat option"
  getInternalComponentManager :: "nat \<Rightarrow> nat \<Rightarrow> manager"
  applyTemplateFactory :: "nat \<Rightarrow> nat \<Rightarrow> nat"
  TEMPLATE_ONLY_GLIMMER_COMPONENTS :: bool
  P_component_default :: string
  typeof_function :: "nat \<Rightarrow> bool"
  isClassicHelper :: "nat \<Rightarrow> bool"

datatype key = FactoryKey nat | TemplateKey nat

datatype component_state =
    TemplateOnlyComponent string
  | FactoryState "Factory option"
  | ClassState nat

record ResolvedComponentDefinition =
  d_id :: nat
  d_state :: component_state
  d_manager :: manager
  d_template :: "nat option"

text \<open>A helper definition is named by the import it is bound to;
  \<open>ObjectPrototypeMember n\<close> is the member \<open>n\<close> of \<open>Object.prototype\<close>.\<close>

datatype helper_def = HelperDef string | ObjectPrototypeMember string

datatype helper_result = BuiltIn helper_def | HelperFactory Factory | HelperClass nat

datatype instrument_event = InstrumentStart string | InstrumentFinish string

text \<open>An instance of \<open>ResolverImpl\<close>: the field \<open>builtInHelpers\<close> holds the object it was
  initialised with, given by its own properties; \<open>componentDefinitionCache\<close> is the \<open>Map\<close>,
  where \<open>None\<close> is \<open>undefined\<close>.\<close>

record ResolverImpl =
  builtInHelpers :: "(string \<times> helper_def) list"
  componentDefinitionCache :: "key \<Rightarrow> ResolvedComponentDefinition option option"

text \<open>What all resolvers of a process share: the module variable
  \<open>CLASSIC_HELPER_MANAGER_ASSOCIATED\<close>, the factories passed to \<open>setInternalHelperManager\<close>,
  the reports made to the instrumentation, and the number the next definition object
  gets.\<close>

record resolver_module =
  CLASSIC_HELPER_MANAGER_ASSOCIATED :: "nat list"
  helperManagersSet :: "nat list"
  instrumentation :: "instrument_event list"
  nextDefinition :: nat

definition initial_resolver_module :: resolver_module where
  "initial_resolver_module =
     \<lparr>CLASSIC_HELPER_MANAGER_ASSOCIATED = [], helperManagersSet = [], instrumentation = [],
      nextDefinition = 0\<rparr>"

text \<open>The object literal \<open>BUILTINS_HELPERS\<close>, as its own properties.\<close>

definition BUILTINS_HELPERS :: "(string \<times> helper_def) list" where
  "BUILTINS_HELPERS =
     [(''if'', HelperDef ''inlineIf''),
      (''action'', HelperDef ''action''),
      (''array'', HelperDef ''array''),
      (''concat'', HelperDef ''concat''),
      (''fn'', HelperDef ''fn''),
      (''get'', HelperDef ''get''),
      (''hash'', HelperDef ''hash''),
      (''log'', HelperDef ''log''),
      (''mut'', HelperDef ''mut''),
      (''query-params'', HelperDef ''queryParams''),
      (''readonly'', HelperDef ''readonly''),
      (''unbound'', HelperDef ''unbound''),
      (''unless'', HelperDef ''inlineUnless''),
      (''-hash'', HelperDef ''hash''),
      (''-each-in'', HelperDef ''eachIn''),
      (''-normalize-class'', HelperDef ''normalizeClassHelper''),
      (''-track-array'', HelperDef ''trackArray''),
      (''-get-dynamic-var'', HelperDef ''internalHelper(getDynamicVar)''),
      (''-mount'', HelperDef ''mountHelper''),
      (''-outlet'', HelperDef ''outletHelper''),
      (''-assert-implicit-component-helper-argument'', HelperDef ''componentAssertionHelper''),
      (''-in-el-null'', HelperDef ''inElementNullCheckHelper'')]"

text \<open>The read \<open>obj[name]\<close> of JavaScript on an object written as a literal: the own property
  of that name; else the member of that name of \<open>Object.prototype\<close>, from which every
  object literal inherits; else \<open>undefined\<close>. The members of \<open>Object.prototype\<close> are those
  of ECMAScript, with the accessors of its Annex B; all of them are functions or objects,
  so they are neither \<open>undefined\<close> nor falsy.\<close>

definition OBJECT_PROTOTYPE_MEMBERS :: "string list" where
  "OBJECT_PROTOTYPE_MEMBERS =
     [''constructor'', ''hasOwnProperty'', ''isPrototypeOf'', ''propertyIsEnumerable'',
      ''toLocaleString'', ''toString'', ''valueOf'', ''__proto__'', ''__defineGetter__'',
      ''__defineSetter__'', ''__lookupGetter__'', ''__lookupSetter__'']"

definition get_property :: "(string \<times> helper_def) list \<Rightarrow> string \<Rightarrow> helper_def option" where
  "get_property obj name =
     (case map_of obj name of
        Some h \<Rightarrow> Some h
      | None \<Rightarrow>
          (if name \<in> set OBJECT_PROTOTYPE_MEMBERS then Some (ObjectPrototypeMember name)
           else None))"

definition new_ResolverImpl :: ResolverImpl where
  "new_ResolverImpl =
     \<lparr>builtInHelpers = BUILTINS_HELPERS, componentDefinitionCache = (\<lambda>_. None)\<rparr>"

definition componentFor :: "string \<Rightarrow> Owner \<Rightarrow> Factory option" where
  "componentFor name owner = factoryFor owner (''component:'' @ name)"

definition layoutFor :: "string \<Rightarrow> Owner \<Rightarrow> nat option" where
  "layoutFor name owner = lookup owner (''template:components/'' @ name)"

datatype LookupResult = LookupResult (component: "Factory option") (layout: "nat option")

definition lookupComponentPair :: "Imports \<Rightarrow> Owner \<Rightarrow> string \<Rightarrow> LookupResult option" where
  "lookupComponentPair g owner name =
     (let cmp = componentFor name owner in
      case (case cmp of
              None \<Rightarrow> None
            | Some f \<Rightarrow> (case f_class f of None \<Rightarrow> None | Some c \<Rightarrow> getComponentTemplate g c)) of
        Some lay \<Rightarrow> Some (LookupResult cmp (Some lay))
      | None \<Rightarrow>
          (let lay = layoutFor name owner in
           if cmp = None \<and> lay = None then None
           else Some (LookupResult cmp lay)))"

text \<open>The cache key of \<open>_lookupComponentDefinition\<close>: the factory if there is one, else the
  template \<open>pair.layout!(owner)\<close>; calling a \<open>null\<close> layout would be a \<open>TypeError\<close>.\<close>

definition cache_key :: "Imports \<Rightarrow> Owner \<Rightarrow> LookupResult \<Rightarrow> key option" where
  "cache_key g owner pair =
     (case component pair of
        Some f \<Rightarrow> Some (FactoryKey (f_id f))
      | None \<Rightarrow>
          (case layout pair of
             None \<Rightarrow> None
           | Some l \<Rightarrow> Some (TemplateKey (applyTemplateFactory g l (owner_id owner)))))"

text \<open>The part of \<open>_lookupComponentDefinition\<close> between \<open>_instrumentStart\<close> and
  \<open>finalizer()\<close>, which builds the definition object.\<close>

definition build_definition ::
  "Imports \<Rightarrow> string \<Rightarrow> Owner \<Rightarrow> LookupResult \<Rightarrow> resolver_module
     \<Rightarrow> error \<times> resolver_module + ResolvedComponentDefinition \<times> resolver_module" where
  "build_definition g name owner pair m =
     (let tmpl = map_option (\<lambda>l. applyTemplateFactory g l (owner_id owner)) (layout pair);
          m1 = m\<lparr>nextDefinition := nextDefinition m + 1\<rparr>
      in case component pair of
           None \<Rightarrow>
             (if TEMPLATE_ONLY_GLIMMER_COMPONENTS g
              then Inr (\<lparr>d_id = nextDefinition m, d_state = TemplateOnlyComponent name,
                         d_manager = TEMPLATE_ONLY_COMPONENT_MANAGER, d_template = tmpl\<rparr>, m1)
              else Inr (\<lparr>d_id = nextDefinition m,
                         d_state = FactoryState (factoryFor owner (P_component_default g)),
                         d_manager = CURLY_COMPONENT_MANAGER, d_template = tmpl\<rparr>, m1))
         | Some factory \<Rightarrow>
             (case assert (''missing component class '' @ name) (f_class factory \<noteq> None) m of
                Inl e \<Rightarrow> Inl e
              | Inr _ \<Rightarrow>
                  (case f_class factory of
                     None \<Rightarrow> Inl (TypeError, m)
                   | Some ComponentClass \<Rightarrow>
                       (let mgr = getInternalComponentManager g (owner_id owner) ComponentClass
                        in Inr (\<lparr>d_id = nextDefinition m,
                                  d_state = (if mgr = CURLY_COMPONENT_MANAGER
                                             then FactoryState (Some factory)
                                             else ClassState ComponentClass),
                                  d_manager = mgr, d_template = tmpl\<rparr>, m1)))))"

definition lookupComponentDefinition ::
  "Imports \<Rightarrow> string \<Rightarrow> Owner \<Rightarrow> ResolverImpl \<Rightarrow> resolver_module
     \<Rightarrow> error \<times> ResolverImpl \<times> resolver_module
        + ResolvedComponentDefinition option \<times> ResolverImpl \<times> resolver_module" where
  "lookupComponentDefinition g name owner res m =
     (case lookupComponentPair g owner name of
        None \<Rightarrow> Inr (None, res, m)
      | Some pair \<Rightarrow>
          (case cache_key g owner pair of
             None \<Rightarrow> Inl (TypeError, res, m)
           | Some k \<Rightarrow>
               (case componentDefinitionCache res k of
                  Some cachedComponentDefinition \<Rightarrow> Inr (cachedComponentDefinition, res, m)
                | None \<Rightarrow>
                    (let m1 = m\<lparr>instrumentation := instrumentation m @ [InstrumentStart name]\<rparr>
                     in case build_definition g name owner pair m1 of
                          Inl (e, m2) \<Rightarrow> Inl (e, res, m2)
                        | Inr (definition, m2) \<Rightarrow>
                            Inr (Some definition,
                                 res\<lparr>componentDefinitionCache :=
                                        (componentDefinitionCache res)(k := Some (Some definition))\<rparr>,
                                 m2\<lparr>instrumentation :=
                                        instrumentation m2 @ [InstrumentFinish name]\<rparr>)))))"

definition lookupComponent ::
  "Imports \<Rightarrow> string \<Rightarrow> Owner \<Rightarrow> ResolverImpl \<Rightarrow> resolver_module
     \<Rightarrow> error \<times> ResolverImpl \<times> resolver_module
        + ResolvedComponentDefinition option \<times> ResolverImpl \<times> resolver_module" where
  "lookupComponent g name owner res m =
     (case lookupComponentDefinition g name owner res m of
        Inl e \<Rightarrow> Inl e
      | Inr (None, st) \<Rightarrow>
          (case assert ''Could not find component `<TextArea />` (did you mean `<Textarea />`?)''
                  (\<not> (name = ''text-area'')) st of
             Inl e \<Rightarrow> Inl e
           | Inr st1 \<Rightarrow> Inr (None, st1))
      | Inr (Some definition, st) \<Rightarrow> Inr (Some definition, st))"

definition lookupHelper ::
  "Imports \<Rightarrow> string \<Rightarrow> Owner \<Rightarrow> ResolverImpl \<Rightarrow> resolver_module
     \<Rightarrow> error \<times> resolver_module + helper_result option \<times> resolver_module" where
  "lookupHelper g name owner res m =
     (case assert (''You attempted to overwrite the built-in helper \"'' @ name
                   @ ''\" which is not allowed. Please rename the helper.'')
             (\<not> (get_property (builtInHelpers res) name \<noteq> None
                  \<and> hasRegistration owner (''helper:'' @ name)))
             m of
        Inl e \<Rightarrow> Inl e
      | Inr _ \<Rightarrow>
          (case get_property (builtInHelpers res) name of
             Some helper \<Rightarrow> Inr (Some (BuiltIn helper), m)
           | None \<Rightarrow>
               (case factoryFor owner (''helper:'' @ name) of
                  None \<Rightarrow> Inr (None, m)
                | Some factory \<Rightarrow>
                    (case f_class factory of
                       None \<Rightarrow> Inr (None, m)
                     | Some definition \<Rightarrow>
                         (if typeof_function g definition \<and> isClassicHelper g definition
                          then
                            (if f_id factory \<notin> set (CLASSIC_HELPER_MANAGER_ASSOCIATED m)
                             then Inr (Some (HelperFactory factory),
                                       m\<lparr>CLASSIC_HELPER_MANAGER_ASSOCIATED :=
                                            CLASSIC_HELPER_MANAGER_ASSOCIATED m @ [f_id factory],
                                          helperManagersSet :=
                                            helperManagersSet m @ [f_id factory]\<rparr>)
                             else Inr (Some (HelperFactory factory), m))
                          else Inr (Some (HelperClass definition), m))))))"

section \<open>Reading results, and example states\<close>

text \<open>The state a call leaves behind, whether it returned or threw, and the error it
  threw.\<close>

definition world_of :: "outcome \<Rightarrow> world" where
  "world_of x = (case x of Inl (e, w) \<Rightarrow> w | Inr w \<Rightarrow> w)"

definition thrown :: "outcome \<Rightarrow> error option" where
  "thrown x = (case x of Inl (e, w) \<Rightarrow> Some e | Inr w \<Rightarrow> None)"

text \<open>The state after a call that may not return; the second argument is the state the
  call started from, which stands for a call that never returns.\<close>

definition world_after :: "outcome option \<Rightarrow> world \<Rightarrow> world" where
  "world_after x w = (case x of None \<Rightarrow> w | Some y \<Rightarrow> world_of y)"

text \<open>\<open>rerender\<close> only schedules \<open>_revalidate\<close> on the run loop.\<close>

definition rerender :: "nat \<Rightarrow> world \<Rightarrow> world" where
  "rerender r w = scheduleRevalidate r w"

text \<open>A process with one renderer (number 0), the clock at revision 5, the loop limit at
  1000 and no run loop open.\<close>

definition example_world :: "bool \<Rightarrow> world" where
  "example_world debug = snd (new_Renderer (initial_world debug 1000 5 False))"

text \<open>The same process at the moment \<open>_renderRoot\<close> has pushed a first root (for view 1) whose
  initial render will throw, before \<open>_renderRootsTransaction\<close> is entered.\<close>

definition example_throwing :: world where
  "example_throwing =
     world_of (renderRoot_enqueue 0 0 (snd (alloc_RootState 1 [[Throw]] (example_world True))))"

text \<open>The part of the state that belongs to the run loop and the settle promise, and the
  imported constants.\<close>

definition host_state ::
  "world \<Rightarrow> bool \<times> int \<times> int \<times> nat option \<times> nat \<times> bool \<times> host_call list \<times> nat" where
  "host_state w =
     (DEBUG w, RERENDER_LOOP_LIMIT w, loops w, renderSettledDeferred w, nextDeferred w,
      currentRunLoop w, hostCalls w, nextRenderer w)"

text \<open>The key under which a lookup of \<open>name\<close> consults \<open>componentDefinitionCache\<close>.\<close>

definition lookup_key :: "Imports \<Rightarrow> Owner \<Rightarrow> string \<Rightarrow> key option" where
  "lookup_key g owner name =
     (case lookupComponentPair g owner name of None \<Rightarrow> None | Some pair \<Rightarrow> cache_key g owner pair)"

text \<open>\<open>kept rid w w'\<close>: between \<open>w\<close> and \<open>w'\<close> no \<open>RootState\<close> was lost, and root \<open>rid\<close> either
  still has the \<open>render\<close> function it had, or has been destroyed.\<close>

definition kept :: "nat \<Rightarrow> world \<Rightarrow> world \<Rightarrow> bool" where
  "kept rid w w' =
     (nextRoot w \<le> nextRoot w'
      \<and> ((render (rootStates w' rid) = render (rootStates w rid)
           \<and> (destroyed (rootStates w rid) \<longrightarrow> destroyed (rootStates w' rid)))
          \<or> (destroyed (rootStates w' rid) \<and> render (rootStates w' rid) = NoRender)))"

text \<open>The example process after a first root (view 1, a render that calls nothing) was
  attached, then tracked state was written (revision 6), with \<open>loops\<close> set to \<open>n\<close>.\<close>

definition example_invalid :: "int \<Rightarrow> world" where
  "example_invalid n =
     (world_after (appendTo 0 1 [] (example_world True)) (example_world True))
       \<lparr>revision := 6, loops := n\<rparr>"

text \<open>An owner with a component factory \<open>component:x-foo\<close> (class 3, no attached template), a
  factory \<open>component:x-nil\<close> without a class, a template \<open>template:components/x-bar\<close> and a
  user helper registered as \<open>helper:if\<close>.\<close>

definition example_imports :: Imports where
  "example_imports =
     \<lparr>getComponentTemplate = (\<lambda>c. None),
      getInternalComponentManager = (\<lambda>ow c. CURLY_COMPONENT_MANAGER),
      applyTemplateFactory = (\<lambda>l ow. 100 * l + ow),
      TEMPLATE_ONLY_GLIMMER_COMPONENTS = True,
      P_component_default = ''component:-default'',
      typeof_function = (\<lambda>c. True),
      isClassicHelper = (\<lambda>c. False)\<rparr>"

definition example_owner :: Owner where
  "example_owner =
     \<lparr>owner_id = 1,
      factoryFor = (\<lambda>n. if n = ''component:x-foo'' then Some \<lparr>f_id = 7, f_class = Some 3\<rparr>
                        else if n = ''component:x-nil'' then Some \<lparr>f_id = 8, f_class = None\<rparr>
                        else None),
      lookup = (\<lambda>n. if n = ''template:components/x-bar'' then Some 12 else None),
      hasRegistration = (\<lambda>n. n = ''helper:if'')\<rparr>"

text \<open>The example process after the root for view 1 was attached and then detached.\<close>

definition example_detached :: world where
  "example_detached =
     world_of (cleanupRootFor 0 1
       (world_after (appendTo 0 1 [] (example_world True)) (example_world True)))"

text \<open>The \<open>RootState\<close> objects created since the process had created \<open>n0\<close> of them, and not
  destroyed.\<close>

definition live_roots :: "nat \<Rightarrow> world \<Rightarrow> nat set" where
  "live_roots n0 w = {rid. n0 \<le> rid \<and> rid < nextRoot w \<and> \<not> destroyed (rootStates w rid)}"

text \<open>The invariant of renderer \<open>r\<close>, which was created when the process had created \<open>n0\<close>
  roots and is the only renderer called since, seen from a \<open>_renderRoots\<close> that works on
  the array at address \<open>a\<close>: the current root list has no duplicates and holds exactly the
  live roots; the array \<open>a\<close> has no duplicates; as long as \<open>a\<close> is still the current list
  nothing is queued in \<open>_removedRoots\<close>; once \<open>_clearAllRoots\<close> has replaced the list,
  everything left in the old array is destroyed.\<close>

definition loop_inv :: "nat \<Rightarrow> nat \<Rightarrow> nat \<Rightarrow> world \<Rightarrow> bool" where
  "loop_inv n0 r a w =
     (n0 \<le> nextRoot w
      \<and> distinct (roots_of r w) \<and> set (roots_of r w) = live_roots n0 w
      \<and> p_roots (rendererObjs w r) < nextArray w \<and> a < nextArray w
      \<and> distinct (arrays w a)
      \<and> (if p_roots (rendererObjs w r) = a
          then p_removedRoots (rendererObjs w r) = []
          else (\<forall>rid\<in>set (arrays w a). rid < nextRoot w \<and> destroyed (rootStates w rid))))"

text \<open>The invariant between calls: the one above for the current list.\<close>

definition idle_inv :: "nat \<Rightarrow> nat \<Rightarrow> world \<Rightarrow> bool" where
  "idle_inv n0 r w = loop_inv n0 r (p_roots (rendererObjs w r)) w"

definition keeps :: "nat \<Rightarrow> nat \<Rightarrow> nat \<Rightarrow> world \<Rightarrow> world \<Rightarrow> bool" where
  "keeps n0 r a w w' =
     ((loop_inv n0 r a w \<longrightarrow> loop_inv n0 r a w')
      \<and> (p_removedRoots (rendererObjs w r) = [] \<longrightarrow> p_removedRoots (rendererObjs w' r) = []))"

text \<open>Calls made on renderer \<open>r\<close> from outside a render: attaching a view, removing a view,
  a write to tracked state, a scheduled \<open>_revalidate\<close>, and \<open>destroy\<close>. A call that throws
  leaves its state behind and the next call runs in it; a call that does not return ends
  the run (\<open>None\<close>).\<close>

datatype op = AttachOp view script | DetachOp view | DirtyOp | RevalidateOp | DestroyOp

fun run_ops :: "nat \<Rightarrow> op list \<Rightarrow> world \<Rightarrow> world option" where
  "run_ops r [] w = Some w"
| "run_ops r (AttachOp v s # ops) w =
     (case appendTo r v s w of None \<Rightarrow> None | Some x \<Rightarrow> run_ops r ops (world_of x))"
| "run_ops r (DetachOp v # ops) w = run_ops r ops (world_of (cleanupRootFor r v w))"
| "run_ops r (DirtyOp # ops) w = run_ops r ops (w\<lparr>revision := revision w + 1\<rparr>)"
| "run_ops r (RevalidateOp # ops) w =
     (case revalidate r w of None \<Rightarrow> None | Some x \<Rightarrow> run_ops r ops (world_of x))"
| "run_ops r (DestroyOp # ops) w = run_ops r ops (world_of (destroy r w))"

text \<open>A render function that only attaches further roots or writes tracked state, and whose
  attached roots do the same: it neither throws nor removes a view nor destroys the
  renderer.\<close>

fun benign :: "action \<Rightarrow> bool" where
  "benign (Attach v s) = (\<forall>acts\<in>set s. \<forall>x\<in>set acts. benign x)"
| "benign (Detach v) = False"
| "benign DestroyRenderer = False"
| "benign Dirty = True"
| "benign Throw = False"

definition benign_script :: "script \<Rightarrow> bool" where
  "benign_script s = (\<forall>acts\<in>set s. \<forall>x\<in>set acts. benign x)"

definition good_root :: "RootState \<Rightarrow> bool" where
  "good_root rs = (\<not> destroyed rs \<and> render rs \<noteq> NoRender \<and> benign_script (script rs))"

definition wf_roots :: "nat \<Rightarrow> world \<Rightarrow> bool" where
  "wf_roots a w = (\<forall>x\<in>set (arrays w a). x < nextRoot w \<and> good_root (rootStates w x))"

text \<open>A renderer between two calls whose roots all have such render functions, and which is
  registered exactly if it has a root.\<close>

definition calm :: "nat \<Rightarrow> world \<Rightarrow> bool" where
  "calm r w =
     (\<not> p_inRenderTransaction (rendererObjs w r)
      \<and> p_removedRoots (rendererObjs w r) = []
      \<and> wf_roots (p_roots (rendererObjs w r)) w
      \<and> (r \<in> set (renderers w) \<longleftrightarrow> roots_of r w \<noteq> []))"

definition grows :: "nat \<Rightarrow> world \<Rightarrow> world \<Rightarrow> bool" where
  "grows a w w' =
     (wf_roots a w' \<and> prefix (arrays w a) (arrays w' a)
      \<and> rendererObjs w' = rendererObjs w \<and> renderers w' = renderers w)"

text \<open>The root a trace entry is a call of \<open>render\<close> for; \<open>pass_events rids evs\<close> says that \<open>evs\<close>
  are calls of \<open>render\<close> for the roots \<open>rids\<close>, one each, in this order.\<close>

fun event_root :: "event \<Rightarrow> nat option" where
  "event_root (Rendered rid) = Some rid"
| "event_root (Warned rid) = Some rid"
| "event_root (DestroyedResult rid) = None"

definition pass_events :: "nat list \<Rightarrow> event list \<Rightarrow> bool" where
  "pass_events rids evs = (map event_root evs = map Some rids)"

text \<open>A run in which a destroyed root is met in two passes of one transaction: with one
  root attached, a second root is attached whose first render attaches a third root and
  then destroys the renderer. Afterwards a view is attached and an unknown view is
  removed. \<open>example_mid\<close> is the state in which \<open>_renderRoots\<close> starts for the second
  attach.\<close>

definition example_ops :: "op list" where
  "example_ops =
     [AttachOp 1 [], AttachOp 2 [[Attach 3 [], DestroyRenderer]], AttachOp 4 [], DetachOp 9]"

definition example_mid :: world where
  "example_mid =
     upd_renderer 0 (\<lambda>p. p\<lparr>p_inRenderTransaction := True\<rparr>)
       (world_of (renderRoot_enqueue 0 1
          (snd (alloc_RootState 2 [[Attach 3 [], DestroyRenderer]]
             (world_after (appendTo 0 1 [] (example_world True)) (example_world True))))))"

text \<open>The work a script still holds: one for every run of the VM it describes and one for
  every root it attaches, counting the scripts of those roots as well. \<open>pending\<close> is the
  work held by all the roots of the process; a pass that lengthens the root list uses
  some of it up, which is why the loop of \<open>_renderRoots\<close> ends for these scripts.\<close>

fun action_weight :: "action \<Rightarrow> nat" where
  "action_weight (Attach v s) = Suc (sum_list (map (\<lambda>acts. Suc (sum_list (map action_weight acts))) s))"
| "action_weight (Detach v) = 0"
| "action_weight DestroyRenderer = 0"
| "action_weight Dirty = 0"
| "action_weight Throw = 0"

definition script_weight :: "script \<Rightarrow> nat" where
  "script_weight s = sum_list (map (\<lambda>acts. Suc (sum_list (map action_weight acts))) s)"

definition pending :: "world \<Rightarrow> nat" where
  "pending w = (\<Sum>rid<nextRoot w. script_weight (script (rootStates w rid)))"

definition potential :: "nat \<Rightarrow> world \<Rightarrow> nat" where
  "potential a w = pending w + length (arrays w a)"

text \<open>One iteration of the \<open>do ... while\<close> loop of \<open>_renderRoots\<close>: the function passed to
  \<open>inTransaction\<close>, with \<open>initialRootsLength\<close> read just before.\<close>

definition one_pass :: "nat \<Rightarrow> nat \<Rightarrow> world \<Rightarrow> outcome" where
  "one_pass r a w =
     (case pass_loop r a (length (arrays w a)) 0 w of
        Inl e \<Rightarrow> Inl e
      | Inr w1 \<Rightarrow> Inr (commit_revision r w1))"

section \<open>Basic facts\<close>

lemmas eval_defs = example_world_def example_throwing_def example_detached_def example_ops_def
  example_mid_def initial_world_def new_Renderer_def
  appendTo_def alloc_RootState_def renderRoot_def renderRoot_enqueue_def upd_array_def
  upd_root_def upd_renderer_def register_def deregister_def assert_def
  renderRootsTransaction_def renderRoots_def renderRoots_loop.simps pass_loop.simps
  invoke_render_def
  new_RootState_def errorLoopTransaction_def vm_run_def commit_revision_def
  valueForTag_CURRENT_def validateTag_CURRENT_def compact_def roots_of_def world_after_def
  world_of_def thrown_def push_removed_def cleanupRootFor_def clearAllRoots_def destroy_def
  root_destroy_def isFor_def splice1_def isValid_def Let_def

lemma indexOf_ge: "- 1 \<le> indexOf xs x"
  by (induction xs) auto

lemma indexOf_notin_iff: "(indexOf xs x = - 1) = (x \<notin> set xs)"
proof (induction xs)
  case Nil
  show ?case by simp
next
  case (Cons y ys)
  have "- 1 \<le> indexOf ys x" by (rule indexOf_ge)
  with Cons show ?case by auto
qed

lemma indexOf_first: "x \<notin> set pre \<Longrightarrow> indexOf (pre @ x # post) x = int (length pre)"
  by (induction pre) auto

lemma splice1_at: "splice1 (int (length pre)) (pre @ x # post) = pre @ post"
  by (simp add: splice1_def Let_def)

lemma upd_root_fields [simp]:
  "rendererObjs (upd_root rid f w) = rendererObjs w"
  "renderers (upd_root rid f w) = renderers w"
  "arrays (upd_root rid f w) = arrays w"
  "nextArray (upd_root rid f w) = nextArray w"
  "nextRoot (upd_root rid f w) = nextRoot w"
  "loops (upd_root rid f w) = loops w"
  "hostCalls (upd_root rid f w) = hostCalls w"
  "renderSettledDeferred (upd_root rid f w) = renderSettledDeferred w"
  "revision (upd_root rid f w) = revision w"
  "DEBUG (upd_root rid f w) = DEBUG w"
  "RERENDER_LOOP_LIMIT (upd_root rid f w) = RERENDER_LOOP_LIMIT w"
  "nextRenderer (upd_root rid f w) = nextRenderer w"
  "nextDeferred (upd_root rid f w) = nextDeferred w"
  "currentRunLoop (upd_root rid f w) = currentRunLoop w"
  "trace (upd_root rid f w) = trace w"
  "rootStates (upd_root rid f w) = (rootStates w)(rid := f (rootStates w rid))"
  by (simp_all add: upd_root_def)

lemma upd_array_fields [simp]:
  "rendererObjs (upd_array a f w) = rendererObjs w"
  "renderers (upd_array a f w) = renderers w"
  "rootStates (upd_array a f w) = rootStates w"
  "nextArray (upd_array a f w) = nextArray w"
  "nextRoot (upd_array a f w) = nextRoot w"
  "loops (upd_array a f w) = loops w"
  "hostCalls (upd_array a f w) = hostCalls w"
  "renderSettledDeferred (upd_array a f w) = renderSettledDeferred w"
  "revision (upd_array a f w) = revision w"
  "DEBUG (upd_array a f w) = DEBUG w"
  "RERENDER_LOOP_LIMIT (upd_array a f w) = RERENDER_LOOP_LIMIT w"
  "nextRenderer (upd_array a f w) = nextRenderer w"
  "nextDeferred (upd_array a f w) = nextDeferred w"
  "currentRunLoop (upd_array a f w) = currentRunLoop w"
  "trace (upd_array a f w) = trace w"
  "arrays (upd_array a f w) = (arrays w)(a := f (arrays w a))"
  by (simp_all add: upd_array_def)

lemma upd_renderer_fields [simp]:
  "arrays (upd_renderer r f w) = arrays w"
  "renderers (upd_renderer r f w) = renderers w"
  "rootStates (upd_renderer r f w) = rootStates w"
  "nextArray (upd_renderer r f w) = nextArray w"
  "nextRoot (upd_renderer r f w) = nextRoot w"
  "loops (upd_renderer r f w) = loops w"
  "hostCalls (upd_renderer r f w) = hostCalls w"
  "renderSettledDeferred (upd_renderer r f w) = renderSettledDeferred w"
  "revision (upd_renderer r f w) = revision w"
  "DEBUG (upd_renderer r f w) = DEBUG w"
  "RERENDER_LOOP_LIMIT (upd_renderer r f w) = RERENDER_LOOP_LIMIT w"
  "nextRenderer (upd_renderer r f w) = nextRenderer w"
  "nextDeferred (upd_renderer r f w) = nextDeferred w"
  "currentRunLoop (upd_renderer r f w) = currentRunLoop w"
  "trace (upd_renderer r f w) = trace w"
  "rendererObjs (upd_renderer r f w) = (rendererObjs w)(r := f (rendererObjs w r))"
  by (simp_all add: upd_renderer_def)

lemma world_of_simps [simp]: "world_of (Inr w) = w" "world_of (Inl (e, w)) = w"
  by (simp_all add: world_of_def)

lemma thrown_simps [simp]: "thrown (Inr w) = None" "thrown (Inl (e, w)) = Some e"
  by (simp_all add: thrown_def)

lemma root_destroy_fields [simp]:
  "rendererObjs (world_of (root_destroy rid w)) = rendererObjs w"
  "renderers (world_of (root_destroy rid w)) = renderers w"
  "arrays (world_of (root_destroy rid w)) = arrays w"
  "nextArray (world_of (root_destroy rid w)) = nextArray w"
  "nextRoot (world_of (root_destroy rid w)) = nextRoot w"
  by (simp_all add: root_destroy_def Let_def)

lemma root_destroy_destroyed [simp]:
  "destroyed (rootStates (world_of (root_destroy rid w)) x) = (x = rid \<or> destroyed (rootStates w x))"
  by (auto simp: root_destroy_def Let_def)

lemma root_destroy_live:
  "\<not> destroyed (rootStates w rid) \<Longrightarrow> \<exists>w1. root_destroy rid w = Inr w1"
  by (simp add: root_destroy_def Let_def)

lemma root_destroy_others:
  "x \<noteq> rid \<Longrightarrow> rootStates (world_of (root_destroy rid w)) x = rootStates w x"
  by (simp add: root_destroy_def Let_def upd_root_def)

text \<open>A part of the state that neither \<open>RootState.destroy\<close> nor a change of an array touches
  is left alone by the loops that destroy roots.\<close>

lemma destroy_each_frame:
  assumes "\<And>rid w. f (world_of (root_destroy rid w)) = f w"
  shows "f (world_of (destroy_each xs w)) = f w"
proof (induction xs arbitrary: w)
  case Nil
  show ?case by simp
next
  case (Cons x xs)
  show ?case
  proof (cases "root_destroy x w")
    case (Inl e)
    with assms [of x w] show ?thesis by simp
  next
    case (Inr w1)
    with assms [of x w] Cons [of w1] show ?thesis by simp
  qed
qed

lemma cleanup_loop_frame:
  assumes "\<And>rid w. f (world_of (root_destroy rid w)) = f w"
      and "\<And>a g w. f (upd_array a g w) = f w"
  shows "f (world_of (cleanup_loop a v i w)) = f w"
proof (induction i arbitrary: w)
  case 0
  show ?case by simp
next
  case (Suc i)
  show ?case
  proof (cases "isFor (rootStates w (arrays w a ! i)) v")
    case False
    with Suc [of w] show ?thesis by simp
  next
    case True
    show ?thesis
    proof (cases "root_destroy (arrays w a ! i) w")
      case (Inl e)
      with True assms(1) [of "arrays w a ! i" w] show ?thesis by simp
    next
      case (Inr w1)
      with True assms(1) [of "arrays w a ! i" w] assms(2) [of a "splice1 (int i)" w1]
        Suc [of "upd_array a (splice1 (int i)) w1"]
      show ?thesis by simp
    qed
  qed
qed

lemma destroy_each_fields [simp]:
  "rendererObjs (world_of (destroy_each xs w)) = rendererObjs w"
  "renderers (world_of (destroy_each xs w)) = renderers w"
  "arrays (world_of (destroy_each xs w)) = arrays w"
  "nextArray (world_of (destroy_each xs w)) = nextArray w"
  "nextRoot (world_of (destroy_each xs w)) = nextRoot w"
  by (rule destroy_each_frame, simp)+

lemma destroy_each_destroyed:
  "destroy_each xs w = Inr w1 \<Longrightarrow>
     destroyed (rootStates w1 x) = (x \<in> set xs \<or> destroyed (rootStates w x))"
proof (induction xs arbitrary: w)
  case Nil
  then show ?case by simp
next
  case (Cons y ys)
  from Cons.prems obtain w0 where y: "root_destroy y w = Inr w0" and r: "destroy_each ys w0 = Inr w1"
    by (auto split: sum.splits)
  from root_destroy_destroyed [of y w x] y
  have "destroyed (rootStates w0 x) = (x = y \<or> destroyed (rootStates w x))" by simp
  with Cons.IH [OF r] show ?case by auto
qed

lemma destroy_each_live:
  "distinct xs \<Longrightarrow> \<forall>x\<in>set xs. \<not> destroyed (rootStates w x) \<Longrightarrow> \<exists>w1. destroy_each xs w = Inr w1"
proof (induction xs arbitrary: w)
  case Nil
  show ?case by simp
next
  case (Cons y ys)
  from Cons.prems root_destroy_live [of w y] obtain w0 where y: "root_destroy y w = Inr w0"
    by auto
  from root_destroy_destroyed [of y w] y
  have d: "destroyed (rootStates w0 x) = (x = y \<or> destroyed (rootStates w x))" for x by simp
  from Cons.prems have "distinct ys" "\<forall>x\<in>set ys. \<not> destroyed (rootStates w0 x)"
    by (auto simp: d)
  from Cons.IH [OF this] y show ?case by simp
qed

lemma deregister_first:
  "renderers w = pre @ r # post \<Longrightarrow> r \<notin> set pre \<Longrightarrow>
   deregister r w = Inr (w\<lparr>renderers := pre @ post\<rparr>)"
  by (simp add: deregister_def assert_def Let_def indexOf_first splice1_at)

lemma deregister_world:
  "world_of (deregister r w) = w \<or> (\<exists>rs. world_of (deregister r w) = w\<lparr>renderers := rs\<rparr>)"
  by (auto simp: deregister_def assert_def world_of_def Let_def)

lemma register_world:
  "world_of (register r w) = w \<or> (\<exists>rs. world_of (register r w) = w\<lparr>renderers := rs\<rparr>)"
  by (auto simp: register_def assert_def world_of_def Let_def)

subsection \<open>What the renderer never touches\<close>

lemma host_state_upd [simp]:
  "host_state (upd_root rid f w) = host_state w"
  "host_state (upd_array a g w) = host_state w"
  "host_state (upd_renderer r h w) = host_state w"
  "host_state (w\<lparr>trace := t\<rparr>) = host_state w"
  "host_state (w\<lparr>renderers := rs\<rparr>) = host_state w"
  "host_state (w\<lparr>revision := n\<rparr>) = host_state w"
  by (simp_all add: host_state_def)

lemma host_state_root_destroy [simp]: "host_state (world_of (root_destroy rid w)) = host_state w"
  by (simp add: root_destroy_def Let_def)

lemma host_state_destroy_each [simp]: "host_state (world_of (destroy_each xs w)) = host_state w"
  by (rule destroy_each_frame) simp

lemma host_state_cleanup_loop [simp]: "host_state (world_of (cleanup_loop a v i w)) = host_state w"
  by (rule cleanup_loop_frame) simp_all

lemma host_state_cleanupRootFor [simp]: "host_state (world_of (cleanupRootFor r v w)) = host_state w"
  by (simp add: cleanupRootFor_def Let_def)

lemma host_state_register [simp]: "host_state (world_of (register r w)) = host_state w"
  using register_world [of r w] by auto

lemma host_state_deregister [simp]: "host_state (world_of (deregister r w)) = host_state w"
  using deregister_world [of r w] by auto

lemma host_state_clearAllRoots [simp]: "host_state (world_of (clearAllRoots r w)) = host_state w"
proof (cases "destroy_each (arrays w (p_roots (rendererObjs w r))) w")
  case (Inl e)
  with host_state_destroy_each [of "arrays w (p_roots (rendererObjs w r))" w] show ?thesis
    by (cases e) (simp add: clearAllRoots_def Let_def)
next
  case (Inr w1)
  have "\<And>w'. host_state (w'\<lparr>arrays := x, nextArray := y\<rparr>) = host_state w'" for x y
    by (simp add: host_state_def)
  with Inr host_state_destroy_each [of "arrays w (p_roots (rendererObjs w r))" w] show ?thesis
    by (simp add: clearAllRoots_def Let_def)
qed

lemma host_state_destroy [simp]: "host_state (world_of (destroy r w)) = host_state w"
  by (simp add: destroy_def)

lemma host_state_alloc [simp]: "host_state (snd (alloc_RootState v s w)) = host_state w"
  by (simp add: alloc_RootState_def host_state_def)

lemma host_state_enqueue [simp]: "host_state (world_of (renderRoot_enqueue r rid w)) = host_state w"
  by (simp add: renderRoot_enqueue_def Let_def)

lemma host_state_exec_action [simp]: "host_state (world_of (exec_action r x w)) = host_state w"
proof (cases x)
  case (Attach v s)
  have "host_state (world_of (renderRoot_enqueue r (fst (alloc_RootState v s w)) (snd (alloc_RootState v s w)))) = host_state w"
    by simp
  then show ?thesis using Attach by (simp add: case_prod_beta)
qed simp_all

lemma host_state_exec_actions [simp]: "host_state (world_of (exec_actions r xs w)) = host_state w"
proof (induction xs arbitrary: w)
  case Nil show ?case by simp
next
  case (Cons x xs)
  show ?case
  proof (cases "exec_action r x w")
    case (Inl e)
    with host_state_exec_action [of r x w] show ?thesis by (cases e) simp
  next
    case (Inr w1)
    with host_state_exec_action [of r x w] Cons [of w1] show ?thesis by simp
  qed
qed

lemma host_state_vm_run [simp]: "host_state (world_of (vm_run r rid w)) = host_state w"
  by (simp add: vm_run_def Let_def)

lemma host_state_run_closure [simp]: "host_state (world_of (run_closure fn r rid w)) = host_state w"
proof (cases fn)
  case InitialRender
  show ?thesis
  proof (cases "vm_run r rid w")
    case (Inl e)
    with host_state_vm_run [of r rid w] InitialRender show ?thesis by (cases e) simp
  next
    case (Inr w1)
    with host_state_vm_run [of r rid w] InitialRender show ?thesis by simp
  qed
qed simp_all

lemma host_state_invoke_render [simp]: "host_state (world_of (invoke_render r rid w)) = host_state w"
proof (cases "render (rootStates w rid)")
  case (Wrapped fn)
  show ?thesis
  proof (cases "run_closure fn r rid w")
    case (Inl e)
    with host_state_run_closure [of fn r rid w] Wrapped show ?thesis
      by (cases e) (simp add: invoke_render_def)
  next
    case (Inr w1)
    with host_state_run_closure [of fn r rid w] Wrapped show ?thesis
      by (simp add: invoke_render_def)
  qed
qed (simp_all add: invoke_render_def)

lemma host_state_pass_loop [simp]: "host_state (world_of (pass_loop r a n i w)) = host_state w"
proof (induction r a n i w rule: pass_loop.induct)
  case (1 r a n i w)
  show ?case
  proof (cases "i < length (arrays w a)")
    case False
    then show ?thesis by (simp add: pass_loop.simps [of r a n i w])
  next
    case inb: True
    show ?thesis
    proof (cases "destroyed (rootStates w (arrays w a ! i))")
      case True
      with inb "1.IH"(1) show ?thesis
        by (simp add: pass_loop.simps [of r a n i w] push_removed_def)
    next
      case live: False
      show ?thesis
      proof (cases "n \<le> i")
        case True
        with inb live "1.IH"(2) show ?thesis by (simp add: pass_loop.simps [of r a n i w])
      next
        case False
        show ?thesis
        proof (cases "invoke_render r (arrays w a ! i) w")
          case (Inl e)
          with host_state_invoke_render [of r "arrays w a ! i" w] inb live False
          show ?thesis by (cases e) (simp add: pass_loop.simps [of r a n i w])
        next
          case (Inr w1)
          with host_state_invoke_render [of r "arrays w a ! i" w] inb live False "1.IH"(3) [of w1]
          show ?thesis by (simp add: pass_loop.simps [of r a n i w])
        qed
      qed
    qed
  qed
qed

lemma host_state_commit [simp]: "host_state (commit_revision r w) = host_state w"
  by (simp add: commit_revision_def)

lemma host_state_renderRoots_loop:
  assumes "renderRoots_loop r0 a0 w0 = Some x0"
  shows "host_state (world_of x0) = host_state w0"
proof (rule renderRoots_loop.raw_induct
    [where P = "\<lambda>r a w x. host_state (world_of x) = host_state w", OF _ assms])
  fix f r a w x
  assume IH: "\<And>r a w x. f r a w = Some x \<Longrightarrow> host_state (world_of x) = host_state w"
    and eq: "(case pass_loop r a (length (arrays w a)) 0 w of
                Inl e \<Rightarrow> Some (Inl e)
              | Inr w1 \<Rightarrow>
                  if length (arrays w a) < length (arrays (commit_revision r w1) a)
                  then f r a (commit_revision r w1)
                  else Some (Inr (commit_revision r w1))) = Some x"
  show "host_state (world_of x) = host_state w"
  proof (cases "pass_loop r a (length (arrays w a)) 0 w")
    case (Inl e)
    with host_state_pass_loop [of r a "length (arrays w a)" 0 w] eq show ?thesis
      by (cases e) auto
  next
    case (Inr w1)
    with host_state_pass_loop [of r a "length (arrays w a)" 0 w]
    have h: "host_state (commit_revision r w1) = host_state w" by simp
    show ?thesis
    proof (cases "length (arrays w a) < length (arrays (commit_revision r w1) a)")
      case True
      with Inr eq have "f r a (commit_revision r w1) = Some x" by simp
      from IH [OF this] h show ?thesis by simp
    next
      case False
      with Inr eq h show ?thesis by auto
    qed
  qed
qed

lemma host_state_compact [simp]: "host_state (compact r a w) = host_state w"
  by (simp add: compact_def)

lemma host_state_renderRoots:
  assumes "renderRoots r w = Some x"
  shows "host_state (world_of x) = host_state w"
proof (cases "renderRoots_loop r (p_roots (rendererObjs w r)) w")
  case None
  with assms show ?thesis by (simp add: renderRoots_def)
next
  case (Some y)
  note h = host_state_renderRoots_loop [OF Some]
  show ?thesis
  proof (cases y)
    case (Inl e)
    with Some assms h show ?thesis by (auto simp: renderRoots_def)
  next
    case (Inr w1)
    with Some assms h
      host_state_deregister [of r "compact r (p_roots (rendererObjs w r)) w1"]
    show ?thesis by (auto simp: renderRoots_def Let_def split: if_splits)
  qed
qed

lemma host_state_renderRootsTransaction:
  assumes "renderRootsTransaction r w = Some x"
  shows "host_state (world_of x) = host_state w"
proof (cases "p_inRenderTransaction (rendererObjs w r)")
  case True
  with assms show ?thesis by (auto simp: renderRootsTransaction_def)
next
  case False
  let ?w0 = "upd_renderer r (\<lambda>p. p\<lparr>p_inRenderTransaction := True\<rparr>) w"
  from False assms obtain y where y: "renderRoots r ?w0 = Some y"
    by (auto simp: renderRootsTransaction_def split: option.splits)
  from host_state_renderRoots [OF y] have h: "host_state (world_of y) = host_state w" by simp
  show ?thesis
  proof (cases y)
    case (Inl e)
    with y False assms h show ?thesis
      by (cases e) (auto simp: renderRootsTransaction_def)
  next
    case (Inr w1)
    with y False assms h show ?thesis by (auto simp: renderRootsTransaction_def)
  qed
qed

lemma host_state_renderRoot:
  assumes "renderRoot r rid w = Some x"
  shows "host_state (world_of x) = host_state w"
proof (cases "renderRoot_enqueue r rid w")
  case (Inl e)
  with assms host_state_enqueue [of r rid w] show ?thesis
    by (cases e) (auto simp: renderRoot_def)
next
  case (Inr w1)
  with assms have "renderRootsTransaction r w1 = Some x" by (simp add: renderRoot_def)
  from host_state_renderRootsTransaction [OF this] Inr host_state_enqueue [of r rid w]
  show ?thesis by simp
qed

lemma host_state_appendTo:
  assumes "appendTo r v s w = Some x"
  shows "host_state (world_of x) = host_state w"
proof -
  from assms have "renderRoot r (fst (alloc_RootState v s w)) (snd (alloc_RootState v s w)) = Some x"
    by (simp add: appendTo_def case_prod_beta)
  from host_state_renderRoot [OF this] show ?thesis by simp
qed

lemma host_state_revalidate:
  assumes "revalidate r w = Some x"
  shows "host_state (world_of x) = host_state w"
  using assms host_state_renderRootsTransaction [of r w x]
  by (auto simp: revalidate_def split: if_splits)

subsection \<open>A render function stays until its root is destroyed\<close>

lemma kept_refl [simp]: "kept rid w w"
  by (simp add: kept_def)

lemma kept_trans: "kept rid w w1 \<Longrightarrow> kept rid w1 w2 \<Longrightarrow> kept rid w w2"
  by (auto simp: kept_def)

lemma kept_registry [simp]: "kept rid w (w\<lparr>renderers := rs\<rparr>)"
  by (simp add: kept_def)

lemma kept_root_destroy [simp]: "kept rid w (world_of (root_destroy x w))"
  by (auto simp: kept_def root_destroy_def Let_def)

lemma kept_upd_array [simp]: "kept rid w1 (upd_array a f w2) = kept rid w1 w2"
  by (simp add: kept_def)

lemma kept_upd_renderer [simp]: "kept rid w1 (upd_renderer a f w2) = kept rid w1 w2"
  by (simp add: kept_def)

lemma kept_destroy_each [simp]: "kept rid w (world_of (destroy_each xs w))"
proof (induction xs arbitrary: w)
  case Nil
  show ?case by simp
next
  case (Cons x xs)
  note k = kept_root_destroy [of rid w x]
  show ?case
  proof (cases "root_destroy x w")
    case (Inl e)
    with k show ?thesis by simp
  next
    case (Inr w1)
    with k have "kept rid w w1" by simp
    from kept_trans [OF this Cons [of w1]] Inr show ?thesis by simp
  qed
qed

lemma kept_cleanup_loop [simp]: "kept rid w (world_of (cleanup_loop a v i w))"
proof (induction i arbitrary: w)
  case 0
  show ?case by simp
next
  case (Suc i)
  show ?case
  proof (cases "isFor (rootStates w (arrays w a ! i)) v")
    case False
    with Suc [of w] show ?thesis by simp
  next
    case True
    note k = kept_root_destroy [of rid w "arrays w a ! i"]
    show ?thesis
    proof (cases "root_destroy (arrays w a ! i) w")
      case (Inl e)
      with True k show ?thesis by simp
    next
      case (Inr w1)
      let ?w2 = "upd_array a (splice1 (int i)) w1"
      from k Inr have "kept rid w ?w2" by simp
      from kept_trans [OF this Suc [of ?w2]] True Inr show ?thesis by simp
    qed
  qed
qed

lemma kept_cleanupRootFor [simp]: "kept rid w (world_of (cleanupRootFor r v w))"
  by (simp add: cleanupRootFor_def Let_def)

lemma kept_register [simp]: "kept rid w (world_of (register r w))"
  using register_world [of r w] by auto

lemma kept_deregister [simp]: "kept rid w (world_of (deregister r w))"
  using deregister_world [of r w] by auto

lemma kept_clearAllRoots [simp]: "kept rid w (world_of (clearAllRoots r w))"
proof -
  let ?roots = "arrays w (p_roots (rendererObjs w r))"
  note k = kept_destroy_each [of rid w ?roots]
  show ?thesis
  proof (cases "destroy_each ?roots w")
    case (Inl e)
    with k show ?thesis by (cases e) (simp add: clearAllRoots_def Let_def)
  next
    case (Inr w1)
    let ?w2 = "upd_renderer r (\<lambda>p. p\<lparr>p_removedRoots := [], p_roots := nextArray w1\<rparr>) w1"
    let ?w3 = "?w2\<lparr>arrays := (arrays ?w2)(nextArray ?w2 := []), nextArray := nextArray ?w2 + 1\<rparr>"
    from k Inr have a: "kept rid w w1" by simp
    have b: "kept rid w1 ?w3" by (simp add: kept_def)
    have c: "kept rid ?w3 (world_of (deregister r ?w3))" by simp
    have d: "kept rid w ?w3" by (rule kept_trans [OF a b])
    show ?thesis
    proof (cases "length ?roots \<noteq> 0")
      case True
      with Inr have "clearAllRoots r w = deregister r ?w3"
        by (simp add: clearAllRoots_def Let_def)
      with kept_trans [OF d c] show ?thesis by simp
    next
      case False
      with Inr have "clearAllRoots r w = Inr ?w3"
        by (simp add: clearAllRoots_def Let_def)
      with d show ?thesis by simp
    qed
  qed
qed

lemma kept_destroy [simp]: "kept rid w (world_of (destroy r w))"
proof (cases "p_destroyed (rendererObjs w r)")
  case True then show ?thesis by (simp add: destroy_def)
next
  case False
  let ?w1 = "upd_renderer r (\<lambda>p. p\<lparr>p_destroyed := True\<rparr>) w"
  have "kept rid w ?w1" by simp
  from kept_trans [OF this kept_clearAllRoots [of rid ?w1 r]] False
  show ?thesis by (simp add: destroy_def)
qed

lemma kept_alloc: "rid < nextRoot w \<Longrightarrow> kept rid w (snd (alloc_RootState v s w))"
  by (simp add: kept_def alloc_RootState_def)

lemma kept_enqueue [simp]: "kept rid w (world_of (renderRoot_enqueue r x w))"
proof -
  let ?w1 = "upd_array (p_roots (rendererObjs w r)) (\<lambda>xs. xs @ [x]) w"
  have a: "kept rid w ?w1" by simp
  have "kept rid ?w1 (world_of (register r ?w1))" by simp
  from kept_trans [OF a this] a show ?thesis
    by (simp add: renderRoot_enqueue_def Let_def)
qed

lemma kept_exec_action: "rid < nextRoot w \<Longrightarrow> kept rid w (world_of (exec_action r x w))"
proof (cases x)
  case (Attach v s)
  assume lt: "rid < nextRoot w"
  let ?w1 = "snd (alloc_RootState v s w)"
  from kept_trans [OF kept_alloc [OF lt, of v s] kept_enqueue [of rid ?w1 r "fst (alloc_RootState v s w)"]]
  show ?thesis using Attach by (simp add: case_prod_beta)
next
  case Dirty then show ?thesis by (simp add: kept_def)
qed simp_all

lemma kept_exec_actions: "rid < nextRoot w \<Longrightarrow> kept rid w (world_of (exec_actions r xs w))"
proof (induction xs arbitrary: w)
  case Nil show ?case by simp
next
  case (Cons x xs)
  note k = kept_exec_action [OF Cons.prems, of r x]
  show ?case
  proof (cases "exec_action r x w")
    case (Inl e)
    with k show ?thesis by (cases e) simp
  next
    case (Inr w1)
    with k have k1: "kept rid w w1" by simp
    then have "rid < nextRoot w1" using Cons.prems by (simp add: kept_def)
    from kept_trans [OF k1 Cons.IH [OF this]] Inr show ?thesis by simp
  qed
qed

lemma kept_vm_run: "rid < nextRoot w \<Longrightarrow> kept rid w (world_of (vm_run r x w))"
proof -
  assume lt: "rid < nextRoot w"
  let ?w1 = "upd_root x (\<lambda>rs. rs\<lparr>script := tl (script (rootStates w x))\<rparr>) w"
  let ?w2 = "?w1\<lparr>trace := trace ?w1 @ [Rendered x]\<rparr>"
  have a: "kept rid w ?w2" by (simp add: kept_def)
  have "rid < nextRoot ?w2" using lt by simp
  from kept_trans [OF a kept_exec_actions [OF this]] show ?thesis
    by (simp add: vm_run_def Let_def)
qed

lemma kept_run_closure_throw:
  assumes "rid < nextRoot w" and "run_closure fn r x w = Inl (e, w1)"
  shows "kept rid w w1"
proof (cases fn)
  case InitialRender
  with assms(2) have "vm_run r x w = Inl (e, w1)" by (simp split: sum.splits)
  with kept_vm_run [OF assms(1), of r x] show ?thesis by simp
next
  case Rerender
  with assms(2) kept_vm_run [OF assms(1), of r x] show ?thesis by simp
next
  case WarnNoop
  with assms(2) show ?thesis by simp
qed

subsection \<open>The end-of-run-loop sweep\<close>

lemma loopEnd_for_skip_valid:
  "\<forall>x\<in>set pre. isValid x w \<Longrightarrow> loopEnd_for (pre @ rest) w = loopEnd_for rest w"
  by (induction pre) auto

lemma loopEnd_for_all_valid:
  "\<forall>x\<in>set rs. isValid x w \<Longrightarrow> loopEnd_for rs w = Inr (resolveRenderPromise (w\<lparr>loops := 0\<rparr>))"
  by (induction rs) auto

lemma destroy_keeps_deferred:
  "renderSettledDeferred (world_of (destroy r w)) = renderSettledDeferred w
   \<and> hostCalls (world_of (destroy r w)) = hostCalls w"
  using host_state_destroy [of r w] by (simp add: host_state_def)

lemma loopEnd_for_invalid_keeps:
  "\<exists>x\<in>set rs. \<not> isValid x w \<Longrightarrow>
     renderSettledDeferred (world_of (loopEnd_for rs w)) = renderSettledDeferred w
     \<and> (\<forall>d. Join_resolve d \<in> set (hostCalls (world_of (loopEnd_for rs w))) \<longrightarrow> Join_resolve d \<in> set (hostCalls w))"
proof (induction rs)
  case Nil then show ?case by simp
next
  case (Cons r rs)
  show ?case
  proof (cases "isValid r w")
    case True
    with Cons show ?thesis by auto
  next
    case False
    show ?thesis
    proof (cases "RERENDER_LOOP_LIMIT w < loops w")
      case True
      have "renderSettledDeferred (world_of (destroy r (w\<lparr>loops := 0\<rparr>))) = renderSettledDeferred w"
        "hostCalls (world_of (destroy r (w\<lparr>loops := 0\<rparr>))) = hostCalls w"
        using destroy_keeps_deferred [of r "w\<lparr>loops := 0\<rparr>"] by simp_all
      with False True show ?thesis
        by (auto simp: world_of_def split: sum.splits)
    next
      case lim: False
      with False show ?thesis by (simp add: world_of_def)
    qed
  qed
qed

lemma build_definition_result:
  "build_definition g name owner pair m = Inr (d, m2) \<Longrightarrow>
     m2 = m\<lparr>nextDefinition := nextDefinition m + 1\<rparr> \<and> d_id d = nextDefinition m"
  by (auto simp: build_definition_def Let_def assert_def split: option.splits if_splits)

lemma build_definition_error:
  "build_definition g name owner pair m = Inl (e, m2) \<Longrightarrow>
     m2 = m \<and> e = AssertionFailed (''missing component class '' @ name)
     \<and> (\<exists>factory. component pair = Some factory \<and> f_class factory = None)"
  by (auto simp: build_definition_def Let_def assert_def split: option.splits if_splits)

lemma lookupComponentPair_key:
  assumes "lookupComponentPair g owner name = Some pair"
  shows "component pair = componentFor name owner"
    and "componentFor name owner = None \<Longrightarrow> layout pair = layoutFor name owner"
    and "cache_key g owner pair \<noteq> None"
  using assms
  by (auto simp: lookupComponentPair_def cache_key_def Let_def split: option.splits if_splits)

text \<open>\<open>_lookupHelper\<close> fails exactly when the read \<open>this.builtInHelpers[name]\<close> finds something
  and the owner has a registration \<open>helper:<name>\<close>; when the read finds something and there
  is no such registration, what it found is returned.\<close>

lemma lookupHelper_by_property:
  "((\<exists>e m'. lookupHelper g name owner res m = Inl (e, m'))
      \<longleftrightarrow> (get_property (builtInHelpers res) name \<noteq> None
           \<and> hasRegistration owner (''helper:'' @ name)))
   \<and> (\<forall>e m'. lookupHelper g name owner res m = Inl (e, m') \<longrightarrow>
         e = AssertionFailed (''You attempted to overwrite the built-in helper \"'' @ name
                   @ ''\" which is not allowed. Please rename the helper.'') \<and> m' = m)
   \<and> (\<forall>h. get_property (builtInHelpers res) name = Some h
            \<and> \<not> hasRegistration owner (''helper:'' @ name) \<longrightarrow>
         lookupHelper g name owner res m = Inr (Some (BuiltIn h), m))"
  by (auto simp: lookupHelper_def assert_def split: option.splits if_splits)

lemma get_property_own:
  "map_of obj name = Some h \<Longrightarrow> get_property obj name = Some h"
  by (simp add: get_property_def)

subsection \<open>The root list holds the live roots\<close>

lemma splice1_nth: "i < length xs \<Longrightarrow> splice1 (int i) xs = take i xs @ drop (Suc i) xs"
  by (simp add: splice1_def Let_def)

lemma distinct_remove_nth:
  assumes "distinct xs" "i < length xs"
  shows "distinct (take i xs @ drop (Suc i) xs)"
    and "set (take i xs @ drop (Suc i) xs) = set xs - {xs ! i}"
proof -
  have xs: "xs = take i xs @ xs ! i # drop (Suc i) xs"
    using assms(2) by (rule id_take_nth_drop)
  with assms(1) have d: "distinct (take i xs @ xs ! i # drop (Suc i) xs)" by simp
  then show "distinct (take i xs @ drop (Suc i) xs)" by simp
  from d have "xs ! i \<notin> set (take i xs) \<union> set (drop (Suc i) xs)" by auto
  moreover have "set xs = set (take i xs) \<union> {xs ! i} \<union> set (drop (Suc i) xs)"
    by (subst xs) auto
  ultimately show "set (take i xs @ drop (Suc i) xs) = set xs - {xs ! i}" by auto
qed

lemma keeps_refl [simp]: "keeps n0 r a w w"
  by (simp add: keeps_def)

lemma keeps_trans: "keeps n0 r a w w1 \<Longrightarrow> keeps n0 r a w1 w2 \<Longrightarrow> keeps n0 r a w w2"
  by (simp add: keeps_def)

lemma loop_inv_cong:
  assumes "arrays w' = arrays w" "rendererObjs w' r = rendererObjs w r"
    "nextRoot w' = nextRoot w" "nextArray w' = nextArray w"
    "\<And>x. destroyed (rootStates w' x) = destroyed (rootStates w x)"
  shows "loop_inv n0 r a w' = loop_inv n0 r a w"
  using assms by (simp add: loop_inv_def roots_of_def live_roots_def)

lemma keeps_same:
  assumes "arrays w' = arrays w" "rendererObjs w' r = rendererObjs w r"
    "nextRoot w' = nextRoot w" "nextArray w' = nextArray w"
    "\<And>x. destroyed (rootStates w' x) = destroyed (rootStates w x)"
  shows "keeps n0 r a w w'"
  using loop_inv_cong [OF assms] assms(2) by (simp add: keeps_def)

lemma keeps_registry [simp]: "keeps n0 r a w (w\<lparr>renderers := rs\<rparr>)"
  by (rule keeps_same) simp_all

lemma keeps_register [simp]: "keeps n0 r a w (world_of (register x w))"
  using register_world [of x w] by auto

lemma keeps_deregister [simp]: "keeps n0 r a w (world_of (deregister x w))"
  using deregister_world [of x w] by auto

lemma cleanup_loop_effect:
  assumes "distinct (arrays w b)" "i \<le> length (arrays w b)"
      and "\<forall>x\<in>set (arrays w b). \<not> destroyed (rootStates w x)"
  shows "\<exists>w'. cleanup_loop b v i w = Inr w'
       \<and> distinct (arrays w' b)
       \<and> set (arrays w' b) \<subseteq> set (arrays w b)
       \<and> (\<forall>c. c \<noteq> b \<longrightarrow> arrays w' c = arrays w c)
       \<and> rendererObjs w' = rendererObjs w
       \<and> nextRoot w' = nextRoot w
       \<and> nextArray w' = nextArray w
       \<and> (\<forall>x. destroyed (rootStates w' x)
              = (destroyed (rootStates w x) \<or> x \<in> set (arrays w b) - set (arrays w' b)))"
  using assms
proof (induction i arbitrary: w)
  case 0
  then show ?case by simp
next
  case (Suc i)
  let ?xs = "arrays w b"
  let ?rid = "?xs ! i"
  from Suc.prems have il: "i < length ?xs" by simp
  show ?case
  proof (cases "isFor (rootStates w ?rid) v")
    case False
    then have eq: "cleanup_loop b v (Suc i) w = cleanup_loop b v i w" by simp
    from Suc.prems have "i \<le> length ?xs" by simp
    show ?thesis unfolding eq
      using Suc.IH [OF Suc.prems(1) \<open>i \<le> length ?xs\<close> Suc.prems(3)] .
  next
    case True
    have rin: "?rid \<in> set ?xs" using il by simp
    with Suc.prems(3) root_destroy_live [of w ?rid] obtain w0 where
      w0: "root_destroy ?rid w = Inr w0" by auto
    have f0: "arrays w0 = arrays w" "rendererObjs w0 = rendererObjs w" "nextRoot w0 = nextRoot w"
      "nextArray w0 = nextArray w"
      using root_destroy_fields [of ?rid w] w0 by simp_all
    have d0: "destroyed (rootStates w0 x) = (x = ?rid \<or> destroyed (rootStates w x))" for x
      using root_destroy_destroyed [of ?rid w x] w0 by simp
    let ?w1 = "upd_array b (splice1 (int i)) w0"
    have eq: "cleanup_loop b v (Suc i) w = cleanup_loop b v i ?w1"
      using True w0 by simp
    have a1: "arrays ?w1 b = take i ?xs @ drop (Suc i) ?xs"
      using il by (simp add: splice1_nth f0)
    have d1: "distinct (arrays ?w1 b)"
      unfolding a1 using distinct_remove_nth(1) [OF Suc.prems(1) il] .
    have s1: "set (arrays ?w1 b) = set ?xs - {?rid}"
      unfolding a1 using distinct_remove_nth(2) [OF Suc.prems(1) il] .
    have l1: "i \<le> length (arrays ?w1 b)"
      unfolding a1 using il by simp
    have live1: "\<forall>x\<in>set (arrays ?w1 b). \<not> destroyed (rootStates ?w1 x)"
      using Suc.prems(3) s1 by (simp add: d0)
    from Suc.IH [OF d1 l1 live1] obtain w' where
      c0: "cleanup_loop b v i ?w1 = Inr w'"
      and c1: "distinct (arrays w' b)"
      and c2: "set (arrays w' b) \<subseteq> set (arrays ?w1 b)"
      and c3: "\<forall>c. c \<noteq> b \<longrightarrow> arrays w' c = arrays ?w1 c"
      and c4: "rendererObjs w' = rendererObjs ?w1"
      and c5: "nextRoot w' = nextRoot ?w1"
      and c6: "nextArray w' = nextArray ?w1"
      and c7: "\<forall>x. destroyed (rootStates w' x)
              = (destroyed (rootStates ?w1 x) \<or> x \<in> set (arrays ?w1 b) - set (arrays w' b))"
      by blast
    have c7': "\<forall>x. destroyed (rootStates w' x)
              = (destroyed (rootStates w x) \<or> x \<in> set ?xs - set (arrays w' b))"
      using c7 c2 s1 rin by (auto simp: d0)
    have c2': "set (arrays w' b) \<subseteq> set ?xs" using c2 s1 by auto
    have c3': "\<forall>c. c \<noteq> b \<longrightarrow> arrays w' c = arrays w c" using c3 by (simp add: f0)
    from c0 c1 c2' c3' c4 c5 c6 c7' show ?thesis
      unfolding eq by (intro exI [of _ w']) (simp add: f0)
  qed
qed

lemma cleanupRootFor_rendererObjs [simp]:
  "rendererObjs (world_of (cleanupRootFor r v w)) = rendererObjs w"
proof -
  have "rendererObjs (world_of (cleanup_loop a v i w)) = rendererObjs w" for a i
    by (rule cleanup_loop_frame) simp_all
  then show ?thesis by (simp add: cleanupRootFor_def Let_def)
qed

lemma keeps_cleanupRootFor [simp]: "keeps n0 r a w (world_of (cleanupRootFor r v w))"
proof (cases "p_destroyed (rendererObjs w r)")
  case True
  then show ?thesis by (simp add: cleanupRootFor_def)
next
  case False
  let ?b = "p_roots (rendererObjs w r)"
  have eq: "cleanupRootFor r v w = cleanup_loop ?b v (length (arrays w ?b)) w"
    using False by (simp add: cleanupRootFor_def Let_def)
  have "loop_inv n0 r a (world_of (cleanupRootFor r v w))" if inv: "loop_inv n0 r a w"
  proof -
    from inv have d: "distinct (arrays w ?b)" and s: "set (arrays w ?b) = live_roots n0 w"
      and n1: "?b < nextArray w" and n2: "a < nextArray w" and n0: "n0 \<le> nextRoot w"
      and da: "distinct (arrays w a)"
      by (simp_all add: loop_inv_def roots_of_def)
    from s have live: "\<forall>x\<in>set (arrays w ?b). \<not> destroyed (rootStates w x)"
      by (simp add: live_roots_def)
    from cleanup_loop_effect [OF d le_refl live, of v] obtain w' where
      c0: "cleanup_loop ?b v (length (arrays w ?b)) w = Inr w'"
      and c1: "distinct (arrays w' ?b)"
      and c2: "set (arrays w' ?b) \<subseteq> set (arrays w ?b)"
      and c3: "\<forall>c. c \<noteq> ?b \<longrightarrow> arrays w' c = arrays w c"
      and c4: "rendererObjs w' = rendererObjs w"
      and c5: "nextRoot w' = nextRoot w"
      and c6: "nextArray w' = nextArray w"
      and c7: "\<forall>x. destroyed (rootStates w' x)
              = (destroyed (rootStates w x) \<or> x \<in> set (arrays w ?b) - set (arrays w' ?b))"
      by blast
    have live': "set (arrays w' ?b) = live_roots n0 w'"
      using c2 c5 c7 s by (auto simp: live_roots_def)
    have "loop_inv n0 r a w'"
    proof (cases "?b = a")
      case True
      with inv have "p_removedRoots (rendererObjs w r) = []" by (simp add: loop_inv_def)
      with True c1 live' c4 c5 c6 n1 n0 show ?thesis
        by (simp add: loop_inv_def roots_of_def)
    next
      case ne: False
      with inv have old: "\<forall>rid\<in>set (arrays w a). rid < nextRoot w \<and> destroyed (rootStates w rid)"
        by (simp add: loop_inv_def)
      from ne c3 have same: "arrays w' a = arrays w a" by simp
      with old c5 c7 have "\<forall>rid\<in>set (arrays w' a). rid < nextRoot w' \<and> destroyed (rootStates w' rid)"
        by simp
      with ne c1 live' c4 c5 c6 n1 n2 n0 da same show ?thesis
        by (simp add: loop_inv_def roots_of_def)
    qed
    with c0 show ?thesis by (simp add: eq)
  qed
  then show ?thesis by (simp add: keeps_def)
qed

lemma keeps_clearAllRoots [simp]: "keeps n0 r a w (world_of (clearAllRoots r w))"
proof -
  let ?b = "p_roots (rendererObjs w r)"
  let ?roots = "arrays w ?b"
  have rm: "p_removedRoots (rendererObjs (world_of (clearAllRoots r w)) r) = []"
    if "p_removedRoots (rendererObjs w r) = []"
  proof (cases "destroy_each ?roots w")
    case (Inl e)
    with that destroy_each_fields(1) [of ?roots w] show ?thesis
      by (cases e) (simp add: clearAllRoots_def Let_def)
  next
    case (Inr w1)
    have "rendererObjs (world_of (deregister r w')) = rendererObjs w'" for w'
      using deregister_world [of r w'] by auto
    with Inr show ?thesis by (simp add: clearAllRoots_def Let_def)
  qed
  have "loop_inv n0 r a (world_of (clearAllRoots r w))" if inv: "loop_inv n0 r a w"
  proof -
    from inv have d: "distinct ?roots" and s: "set ?roots = live_roots n0 w"
      and n2: "a < nextArray w" and n0: "n0 \<le> nextRoot w" and da: "distinct (arrays w a)"
      and old: "?b \<noteq> a \<Longrightarrow> \<forall>rid\<in>set (arrays w a). rid < nextRoot w \<and> destroyed (rootStates w rid)"
      by (simp_all add: loop_inv_def roots_of_def)
    from s have live: "\<forall>x\<in>set ?roots. \<not> destroyed (rootStates w x)"
      by (simp add: live_roots_def)
    from destroy_each_live [OF d live] obtain w1 where w1: "destroy_each ?roots w = Inr w1"
      by blast
    have f1: "arrays w1 = arrays w" "rendererObjs w1 = rendererObjs w" "nextRoot w1 = nextRoot w"
      "nextArray w1 = nextArray w"
      using destroy_each_fields [of ?roots w] w1 by simp_all
    note d1 = destroy_each_destroyed [OF w1]
    let ?w2 = "upd_renderer r (\<lambda>p. p\<lparr>p_removedRoots := [], p_roots := nextArray w1\<rparr>) w1"
    let ?w3 = "?w2\<lparr>arrays := (arrays ?w2)(nextArray ?w2 := []), nextArray := nextArray ?w2 + 1\<rparr>"
    have all: "\<forall>rid\<in>set (arrays w a). rid < nextRoot w \<and> (rid \<in> set ?roots \<or> destroyed (rootStates w rid))"
    proof (cases "?b = a")
      case True
      with s show ?thesis by (auto simp: live_roots_def)
    next
      case False
      from old [OF this] show ?thesis by simp
    qed
    have i3: "loop_inv n0 r a ?w3"
      using all s n2 n0 da by (auto simp: loop_inv_def roots_of_def live_roots_def f1 d1)
    have "world_of (clearAllRoots r w) = ?w3
          \<or> world_of (clearAllRoots r w) = world_of (deregister r ?w3)"
      using w1 by (simp add: clearAllRoots_def Let_def)
    moreover have "loop_inv n0 r a (world_of (deregister r ?w3))"
      using i3 keeps_deregister [of n0 r a ?w3 r] by (simp add: keeps_def)
    ultimately show ?thesis using i3 by auto
  qed
  with rm show ?thesis by (simp add: keeps_def)
qed

lemma keeps_destroy [simp]: "keeps n0 r a w (world_of (destroy r w))"
proof (cases "p_destroyed (rendererObjs w r)")
  case True
  then show ?thesis by (simp add: destroy_def)
next
  case False
  let ?w1 = "upd_renderer r (\<lambda>p. p\<lparr>p_destroyed := True\<rparr>) w"
  have "keeps n0 r a w ?w1"
    by (simp add: keeps_def loop_inv_def roots_of_def live_roots_def)
  from keeps_trans [OF this keeps_clearAllRoots [of n0 r a ?w1]] False
  show ?thesis by (simp add: destroy_def)
qed

lemma keeps_attach: "keeps n0 r a w (world_of (exec_action r (Attach v s) w))"
proof -
  let ?rid = "nextRoot w"
  let ?w1 = "snd (alloc_RootState v s w)"
  let ?b = "p_roots (rendererObjs w r)"
  let ?w2 = "upd_array ?b (\<lambda>xs. xs @ [?rid]) ?w1"
  have "world_of (exec_action r (Attach v s) w) = ?w2
        \<or> world_of (exec_action r (Attach v s) w) = world_of (register r ?w2)"
    by (simp add: alloc_RootState_def renderRoot_enqueue_def Let_def)
  moreover have k2: "keeps n0 r a w ?w2"
  proof -
    have "loop_inv n0 r a ?w2" if inv: "loop_inv n0 r a w"
    proof -
      from inv have d: "distinct (arrays w ?b)" and s: "set (arrays w ?b) = live_roots n0 w"
        and n0: "n0 \<le> nextRoot w" and da: "distinct (arrays w a)"
        by (simp_all add: loop_inv_def roots_of_def)
      from s have fresh: "?rid \<notin> set (arrays w ?b)" by (simp add: live_roots_def)
      have live2: "live_roots n0 ?w2 = insert ?rid (live_roots n0 w)"
        using n0 by (auto simp: live_roots_def alloc_RootState_def new_RootState_def)
      have n02: "n0 \<le> nextRoot ?w2" using n0 by (simp add: alloc_RootState_def)
      have da2: "distinct (arrays ?w2 a)"
        using da d fresh by (cases "?b = a") (simp_all add: alloc_RootState_def)
      have old2: "\<forall>rid\<in>set (arrays ?w2 a). rid < nextRoot ?w2 \<and> destroyed (rootStates ?w2 rid)"
        if ne: "?b \<noteq> a"
      proof
        fix rid
        assume "rid \<in> set (arrays ?w2 a)"
        with ne have m: "rid \<in> set (arrays w a)" by (simp add: alloc_RootState_def)
        with inv ne have "rid < nextRoot w" "destroyed (rootStates w rid)"
          by (simp_all add: loop_inv_def)
        then show "rid < nextRoot ?w2 \<and> destroyed (rootStates ?w2 rid)"
          by (simp add: alloc_RootState_def)
      qed
      have rem: "p_removedRoots (rendererObjs ?w2 r) = []" if "?b = a"
        using inv that by (simp add: loop_inv_def alloc_RootState_def)
      have pr: "p_roots (rendererObjs ?w2 r) = ?b" "nextArray ?w2 = nextArray w"
        "arrays ?w2 ?b = arrays w ?b @ [?rid]"
        by (simp_all add: alloc_RootState_def)
      from inv have n: "?b < nextArray w" "a < nextArray w"
        by (simp_all add: loop_inv_def)
      show ?thesis
        unfolding loop_inv_def roots_of_def pr
        using d s fresh live2 n old2 rem n02 da2 by auto
    qed
    then show ?thesis by (simp add: keeps_def alloc_RootState_def)
  qed
  moreover have "keeps n0 r a w (world_of (register r ?w2))"
    by (rule keeps_trans [OF k2 keeps_register])
  ultimately show ?thesis by auto
qed

lemma keeps_exec_action: "keeps n0 r a w (world_of (exec_action r x w))"
proof (cases x)
  case (Attach v s)
  then show ?thesis using keeps_attach [of n0 r a w v s] by simp
next
  case Dirty
  have "keeps n0 r a w (w\<lparr>revision := revision w + 1\<rparr>)" by (rule keeps_same) simp_all
  with Dirty show ?thesis by simp
qed simp_all

lemma keeps_exec_actions: "keeps n0 r a w (world_of (exec_actions r xs w))"
proof (induction xs arbitrary: w)
  case Nil show ?case by simp
next
  case (Cons x xs)
  note k = keeps_exec_action [of n0 r a w x]
  show ?case
  proof (cases "exec_action r x w")
    case (Inl e)
    with k show ?thesis by (cases e) simp
  next
    case (Inr w1)
    with k have "keeps n0 r a w w1" by simp
    from keeps_trans [OF this Cons [of w1]] Inr show ?thesis by simp
  qed
qed

lemma keeps_vm_run: "keeps n0 r a w (world_of (vm_run r x w))"
proof -
  let ?w1 = "upd_root x (\<lambda>rs. rs\<lparr>script := tl (script (rootStates w x))\<rparr>) w"
  let ?w2 = "?w1\<lparr>trace := trace ?w1 @ [Rendered x]\<rparr>"
  have "keeps n0 r a w ?w2" by (rule keeps_same) simp_all
  from keeps_trans [OF this keeps_exec_actions] show ?thesis
    by (simp add: vm_run_def Let_def)
qed

lemma keeps_run_closure: "keeps n0 r a w (world_of (run_closure fn r x w))"
proof (cases fn)
  case InitialRender
  note k = keeps_vm_run [of n0 r a w x]
  show ?thesis
  proof (cases "vm_run r x w")
    case (Inl e)
    with k InitialRender show ?thesis by (cases e) simp
  next
    case (Inr w1)
    let ?w2 = "upd_root x (\<lambda>rs. rs\<lparr>result := Some RenderResult,
                  render := errorLoopTransaction (DEBUG w1) Rerender\<rparr>) w1"
    have "keeps n0 r a w1 ?w2" by (rule keeps_same) simp_all
    with k Inr have "keeps n0 r a w ?w2" by (auto intro: keeps_trans)
    with Inr InitialRender show ?thesis by simp
  qed
next
  case Rerender
  with keeps_vm_run [of n0 r a w x] show ?thesis by simp
next
  case WarnNoop
  have "keeps n0 r a w (w\<lparr>trace := trace w @ [Warned x]\<rparr>)" by (rule keeps_same) simp_all
  with WarnNoop show ?thesis by simp
qed

lemma keeps_invoke_render: "keeps n0 r a w (world_of (invoke_render r x w))"
proof (cases "render (rootStates w x)")
  case (Wrapped fn)
  note k = keeps_run_closure [of n0 r a w fn x]
  show ?thesis
  proof (cases "run_closure fn r x w")
    case (Inr w1)
    with k Wrapped show ?thesis by (simp add: invoke_render_def)
  next
    case (Inl e)
    obtain err w1 where e: "e = (err, w1)" by (cases e)
    let ?w2 = "upd_root x (\<lambda>rs. rs\<lparr>render := Wrapped WarnNoop\<rparr>) w1"
    have "keeps n0 r a w1 ?w2" by (rule keeps_same) simp_all
    with k Inl e have "keeps n0 r a w w1" "keeps n0 r a w ?w2" by (auto intro: keeps_trans)
    with Inl e Wrapped show ?thesis by (simp add: invoke_render_def)
  qed
next
  case (Unwrapped fn)
  with keeps_run_closure [of n0 r a w fn x] show ?thesis by (simp add: invoke_render_def)
next
  case NoRender
  then show ?thesis by (simp add: invoke_render_def)
qed

lemma loop_inv_live_current:
  assumes "loop_inv n0 r a w" "i < length (arrays w a)" "\<not> destroyed (rootStates w (arrays w a ! i))"
  shows "p_roots (rendererObjs w r) = a" and "p_removedRoots (rendererObjs w r) = []"
proof -
  show c: "p_roots (rendererObjs w r) = a"
  proof (rule ccontr)
    assume "p_roots (rendererObjs w r) \<noteq> a"
    with assms(1) have "\<forall>rid\<in>set (arrays w a). destroyed (rootStates w rid)"
      by (simp add: loop_inv_def)
    with assms(2) assms(3) show False by simp
  qed
  with assms(1) show "p_removedRoots (rendererObjs w r) = []"
    by (simp add: loop_inv_def)
qed

lemma loop_inv_dead_old:
  assumes "loop_inv n0 r a w" "i < length (arrays w a)" "destroyed (rootStates w (arrays w a ! i))"
  shows "p_roots (rendererObjs w r) \<noteq> a"
proof
  assume c: "p_roots (rendererObjs w r) = a"
  with assms(1) have "set (arrays w a) = live_roots n0 w"
    by (simp add: loop_inv_def roots_of_def)
  with assms(2) have "arrays w a ! i \<in> live_roots n0 w" by (metis nth_mem)
  with assms(3) show False by (simp add: live_roots_def)
qed

lemma loop_inv_push_removed:
  assumes "loop_inv n0 r a w" "p_roots (rendererObjs w r) \<noteq> a"
  shows "loop_inv n0 r a (push_removed r x w)"
  using assms by (simp add: loop_inv_def push_removed_def roots_of_def live_roots_def)

lemma pass_loop_inv:
  "loop_inv n0 r a w \<Longrightarrow>
     loop_inv n0 r a (world_of (pass_loop r a n i w))
     \<and> (thrown (pass_loop r a n i w) \<noteq> None \<longrightarrow>
          p_removedRoots (rendererObjs (world_of (pass_loop r a n i w)) r) = [])"
proof (induction r a n i w rule: pass_loop.induct)
  case (1 r a n i w)
  note inv = "1.prems"
  show ?case
  proof (cases "i < length (arrays w a)")
    case False
    with inv show ?thesis by (simp add: pass_loop.simps [of r a n i w])
  next
    case inb: True
    let ?rid = "arrays w a ! i"
    show ?thesis
    proof (cases "destroyed (rootStates w ?rid)")
      case True
      from loop_inv_push_removed [OF inv loop_inv_dead_old [OF inv inb True]]
      have "loop_inv n0 r a (push_removed r ?rid w)" .
      from "1.IH"(1) [OF inb True this] inb True show ?thesis
        by (simp add: pass_loop.simps [of r a n i w])
    next
      case live: False
      show ?thesis
      proof (cases "n \<le> i")
        case True
        from "1.IH"(2) [OF inb live True inv] inb live True show ?thesis
          by (simp add: pass_loop.simps [of r a n i w])
      next
        case False
        note k = keeps_invoke_render [of n0 r a w ?rid]
        note cur = loop_inv_live_current [OF inv inb live]
        show ?thesis
        proof (cases "invoke_render r ?rid w")
          case (Inl e)
          obtain err w1 where e: "e = (err, w1)" by (cases e)
          from k Inl e inv cur(2) have "loop_inv n0 r a w1" "p_removedRoots (rendererObjs w1 r) = []"
            by (simp_all add: keeps_def)
          with Inl e inb live False show ?thesis
            by (simp add: pass_loop.simps [of r a n i w])
        next
          case (Inr w1)
          from k Inr inv have "loop_inv n0 r a w1" by (simp add: keeps_def)
          from "1.IH"(3) [OF inb live False Inr this] inb live False Inr show ?thesis
            by (simp add: pass_loop.simps [of r a n i w])
        qed
      qed
    qed
  qed
qed

lemma loop_inv_commit [simp]: "loop_inv n0 r a (commit_revision x w) = loop_inv n0 r a w"
  by (simp add: loop_inv_def commit_revision_def roots_of_def live_roots_def)

lemma renderRoots_loop_inv:
  assumes "renderRoots_loop r0 a0 w0 = Some x0" and "loop_inv n0 r0 a0 w0"
  shows "loop_inv n0 r0 a0 (world_of x0)
         \<and> (thrown x0 \<noteq> None \<longrightarrow> p_removedRoots (rendererObjs (world_of x0) r0) = [])"
proof -
  have "loop_inv n0 r0 a0 w0 \<longrightarrow>
        loop_inv n0 r0 a0 (world_of x0)
         \<and> (thrown x0 \<noteq> None \<longrightarrow> p_removedRoots (rendererObjs (world_of x0) r0) = [])"
  proof (rule renderRoots_loop.raw_induct
      [where P = "\<lambda>r a w x. loop_inv n0 r a w \<longrightarrow> loop_inv n0 r a (world_of x)
           \<and> (thrown x \<noteq> None \<longrightarrow> p_removedRoots (rendererObjs (world_of x) r) = [])",
        OF _ assms(1)])
    fix f r a w x
    assume IH: "\<And>r a w x. f r a w = Some x \<Longrightarrow>
                 loop_inv n0 r a w \<longrightarrow> loop_inv n0 r a (world_of x)
                 \<and> (thrown x \<noteq> None \<longrightarrow> p_removedRoots (rendererObjs (world_of x) r) = [])"
      and eq: "(case pass_loop r a (length (arrays w a)) 0 w of
                  Inl e \<Rightarrow> Some (Inl e)
                | Inr w1 \<Rightarrow>
                    if length (arrays w a) < length (arrays (commit_revision r w1) a)
                    then f r a (commit_revision r w1)
                    else Some (Inr (commit_revision r w1))) = Some x"
    show "loop_inv n0 r a w \<longrightarrow> loop_inv n0 r a (world_of x)
           \<and> (thrown x \<noteq> None \<longrightarrow> p_removedRoots (rendererObjs (world_of x) r) = [])"
    proof
      assume inv: "loop_inv n0 r a w"
      note p = pass_loop_inv [OF inv, of "length (arrays w a)" 0]
      show "loop_inv n0 r a (world_of x)
           \<and> (thrown x \<noteq> None \<longrightarrow> p_removedRoots (rendererObjs (world_of x) r) = [])"
      proof (cases "pass_loop r a (length (arrays w a)) 0 w")
        case (Inl e)
        with eq have "x = Inl e" by simp
        with p Inl show ?thesis by simp
      next
        case (Inr w1)
        with p have i1: "loop_inv n0 r a (commit_revision r w1)" by simp
        show ?thesis
        proof (cases "length (arrays w a) < length (arrays (commit_revision r w1) a)")
          case True
          with Inr eq have "f r a (commit_revision r w1) = Some x" by simp
          from IH [OF this] i1 show ?thesis by simp
        next
          case False
          with Inr eq have "x = Inr (commit_revision r w1)" by simp
          with i1 show ?thesis by simp
        qed
      qed
    qed
  qed
  with assms(2) show ?thesis by simp
qed

lemma loop_inv_idle:
  "loop_inv n0 r a w \<Longrightarrow> p_removedRoots (rendererObjs w r) = [] \<Longrightarrow> idle_inv n0 r w"
  by (simp add: idle_inv_def loop_inv_def roots_of_def)

lemma keeps_idle:
  assumes "keeps n0 r (p_roots (rendererObjs w r)) w w'" and "idle_inv n0 r w"
  shows "idle_inv n0 r w'"
proof -
  from assms(2) have l: "loop_inv n0 r (p_roots (rendererObjs w r)) w"
    and rm: "p_removedRoots (rendererObjs w r) = []"
    by (simp_all add: idle_inv_def loop_inv_def)
  from assms(1) l rm have "loop_inv n0 r (p_roots (rendererObjs w r)) w'"
    and "p_removedRoots (rendererObjs w' r) = []"
    by (simp_all add: keeps_def)
  then show ?thesis by (rule loop_inv_idle)
qed

lemma idle_inv_registry [simp]: "idle_inv n0 r (w\<lparr>renderers := rs\<rparr>) = idle_inv n0 r w"
  by (simp add: idle_inv_def loop_inv_def roots_of_def live_roots_def)

lemma idle_inv_deregister: "idle_inv n0 r w \<Longrightarrow> idle_inv n0 r (world_of (deregister x w))"
  using deregister_world [of x w] by auto

lemma idle_inv_flag [simp]:
  "idle_inv n0 r (upd_renderer x (\<lambda>p. p\<lparr>p_inRenderTransaction := b\<rparr>) w) = idle_inv n0 r w"
  by (simp add: idle_inv_def loop_inv_def roots_of_def live_roots_def)

lemma idle_inv_commit [simp]: "idle_inv n0 r (commit_revision x w) = idle_inv n0 r w"
  by (simp add: idle_inv_def loop_inv_def roots_of_def live_roots_def commit_revision_def)

lemma compact_idle:
  assumes "loop_inv n0 r a w"
  shows "idle_inv n0 r (compact r a w)"
proof (cases "p_roots (rendererObjs w r) = a")
  case True
  with assms have "p_removedRoots (rendererObjs w r) = []" by (simp add: loop_inv_def)
  then have "compact r a w = upd_renderer r (\<lambda>p. p\<lparr>p_removedRoots := []\<rparr>) w"
    by (simp add: compact_def upd_array_def)
  with assms True show ?thesis
    by (simp add: idle_inv_def loop_inv_def roots_of_def live_roots_def)
next
  case False
  with assms show ?thesis
    by (simp add: compact_def idle_inv_def loop_inv_def roots_of_def live_roots_def)
qed

lemma renderRoots_idle:
  assumes "renderRoots r w = Some x" and "idle_inv n0 r w"
  shows "idle_inv n0 r (world_of x)"
proof -
  let ?a = "p_roots (rendererObjs w r)"
  from assms(1) obtain y where y: "renderRoots_loop r ?a w = Some y"
    by (auto simp: renderRoots_def Let_def split: option.splits)
  from assms(2) have "loop_inv n0 r ?a w" by (simp add: idle_inv_def)
  note l = renderRoots_loop_inv [OF y this]
  show ?thesis
  proof (cases y)
    case (Inl e)
    obtain err w1 where e: "e = (err, w1)" by (cases e)
    from assms(1) y Inl have "x = Inl e" by (simp add: renderRoots_def)
    with l Inl e show ?thesis by (auto intro: loop_inv_idle)
  next
    case (Inr w1)
    with l have c: "idle_inv n0 r (compact r ?a w1)" by (simp add: compact_idle)
    from assms(1) y Inr
    have "x = Inr (compact r ?a w1) \<or> x = deregister r (compact r ?a w1)"
      by (auto simp: renderRoots_def Let_def split: if_splits)
    with c idle_inv_deregister [OF c, of r] show ?thesis by auto
  qed
qed

lemma renderRootsTransaction_idle:
  assumes "renderRootsTransaction r w = Some x" and "idle_inv n0 r w"
  shows "idle_inv n0 r (world_of x)"
proof (cases "p_inRenderTransaction (rendererObjs w r)")
  case True
  with assms show ?thesis by (auto simp: renderRootsTransaction_def)
next
  case False
  let ?w0 = "upd_renderer r (\<lambda>p. p\<lparr>p_inRenderTransaction := True\<rparr>) w"
  from False assms(1) obtain y where y: "renderRoots r ?w0 = Some y"
    by (auto simp: renderRootsTransaction_def split: option.splits)
  from assms(2) have "idle_inv n0 r ?w0" by simp
  note i = renderRoots_idle [OF y this]
  show ?thesis
  proof (cases y)
    case (Inl e)
    obtain err w1 where e: "e = (err, w1)" by (cases e)
    with y Inl False assms(1) i show ?thesis
      by (auto simp: renderRootsTransaction_def)
  next
    case (Inr w1)
    with y False assms(1) i show ?thesis
      by (auto simp: renderRootsTransaction_def)
  qed
qed

lemma attach_rendererObjs [simp]:
  "rendererObjs (world_of (exec_action r (Attach v s) w)) = rendererObjs w"
proof -
  let ?w2 = "upd_array (p_roots (rendererObjs w r)) (\<lambda>xs. xs @ [nextRoot w]) (snd (alloc_RootState v s w))"
  have "world_of (exec_action r (Attach v s) w) = ?w2
        \<or> world_of (exec_action r (Attach v s) w) = world_of (register r ?w2)"
    by (simp add: alloc_RootState_def renderRoot_enqueue_def Let_def)
  moreover have "rendererObjs ?w2 = rendererObjs w" by (simp add: alloc_RootState_def)
  moreover have "rendererObjs (world_of (register r ?w2)) = rendererObjs ?w2"
    using register_world [of r ?w2] by auto
  ultimately show ?thesis by auto
qed

lemma appendTo_idle:
  assumes "appendTo r v s w = Some x" and "idle_inv n0 r w"
  shows "idle_inv n0 r (world_of x)"
proof -
  let ?e = "exec_action r (Attach v s) w"
  have i1: "idle_inv n0 r (world_of ?e)"
    using keeps_idle [OF keeps_attach assms(2)] .
  show ?thesis
  proof (cases ?e)
    case (Inl e)
    with assms(1) have "x = ?e"
      by (simp add: appendTo_def renderRoot_def case_prod_beta)
    with i1 show ?thesis by simp
  next
    case (Inr w2)
    with assms(1) have "renderRootsTransaction r w2 = Some x"
      by (simp add: appendTo_def renderRoot_def case_prod_beta)
    from renderRootsTransaction_idle [OF this] i1 Inr show ?thesis by simp
  qed
qed

lemma revalidate_idle:
  assumes "revalidate r w = Some x" and "idle_inv n0 r w"
  shows "idle_inv n0 r (world_of x)"
  using assms renderRootsTransaction_idle [of r w x]
  by (auto simp: revalidate_def split: if_splits)

lemma run_ops_idle:
  "run_ops r ops w = Some w' \<Longrightarrow> idle_inv n0 r w \<Longrightarrow> idle_inv n0 r w'"
proof (induction ops arbitrary: w)
  case Nil
  then show ?case by simp
next
  case (Cons x ops)
  show ?case
  proof (cases x)
    case (AttachOp v s)
    with Cons.prems(1) obtain y where y: "appendTo r v s w = Some y"
      and rest: "run_ops r ops (world_of y) = Some w'"
      by (auto split: option.splits)
    from Cons.IH [OF rest appendTo_idle [OF y Cons.prems(2)]] show ?thesis .
  next
    case (DetachOp v)
    with Cons.prems(1) have rest: "run_ops r ops (world_of (cleanupRootFor r v w)) = Some w'" by simp
    have "idle_inv n0 r (world_of (cleanupRootFor r v w))"
      using keeps_idle [OF keeps_cleanupRootFor Cons.prems(2)] .
    from Cons.IH [OF rest this] show ?thesis .
  next
    case DirtyOp
    with Cons.prems(1) have rest: "run_ops r ops (w\<lparr>revision := revision w + 1\<rparr>) = Some w'" by simp
    have "idle_inv n0 r (w\<lparr>revision := revision w + 1\<rparr>)"
      using Cons.prems(2) by (simp add: idle_inv_def loop_inv_def roots_of_def live_roots_def)
    from Cons.IH [OF rest this] show ?thesis .
  next
    case RevalidateOp
    with Cons.prems(1) obtain y where y: "revalidate r w = Some y"
      and rest: "run_ops r ops (world_of y) = Some w'"
      by (auto split: option.splits)
    from Cons.IH [OF rest revalidate_idle [OF y Cons.prems(2)]] show ?thesis .
  next
    case DestroyOp
    with Cons.prems(1) have rest: "run_ops r ops (world_of (destroy r w)) = Some w'" by simp
    have "idle_inv n0 r (world_of (destroy r w))"
      using keeps_idle [OF keeps_destroy Cons.prems(2)] .
    from Cons.IH [OF rest this] show ?thesis .
  qed
qed

lemma idle_inv_new_Renderer:
  "idle_inv (nextRoot w0) (fst (new_Renderer w0)) (snd (new_Renderer w0))"
  by (simp add: new_Renderer_def idle_inv_def loop_inv_def roots_of_def live_roots_def)

text \<open>\<open>cleanupRootFor\<close> on a renderer that is not destroyed takes the roots for the view out
  of the list and keeps n0 the others, in order.\<close>

lemma cleanup_loop_filter:
  assumes "distinct (arrays w b)" "i \<le> length (arrays w b)"
      and "\<forall>x\<in>set (arrays w b). \<not> destroyed (rootStates w x)"
  shows "\<exists>w'. cleanup_loop b v i w = Inr w'
       \<and> arrays w' b = filter (\<lambda>x. \<not> isFor (rootStates w x) v) (take i (arrays w b))
                         @ drop i (arrays w b)
       \<and> (\<forall>x. \<not> isFor (rootStates w x) v \<longrightarrow> rootStates w' x = rootStates w x)"
  using assms
proof (induction i arbitrary: w)
  case 0
  then show ?case by simp
next
  case (Suc i)
  let ?xs = "arrays w b"
  let ?rid = "?xs ! i"
  let ?P = "\<lambda>x. \<not> isFor (rootStates w x) v"
  from Suc.prems have il: "i < length ?xs" by simp
  have tk: "take (Suc i) ?xs = take i ?xs @ [?rid]"
    using il by (simp add: take_Suc_conv_app_nth)
  have dr: "drop i ?xs = ?rid # drop (Suc i) ?xs"
    using il by (simp add: Cons_nth_drop_Suc)
  show ?case
  proof (cases "isFor (rootStates w ?rid) v")
    case False
    then have eq: "cleanup_loop b v (Suc i) w = cleanup_loop b v i w" by simp
    from Suc.prems have "i \<le> length ?xs" by simp
    from Suc.IH [OF Suc.prems(1) this Suc.prems(3)] False show ?thesis
      unfolding eq by (simp add: tk dr)
  next
    case True
    have rin: "?rid \<in> set ?xs" using il by simp
    with Suc.prems(3) root_destroy_live [of w ?rid] obtain w0 where
      w0: "root_destroy ?rid w = Inr w0" by auto
    have f0: "arrays w0 = arrays w"
      using root_destroy_fields [of ?rid w] w0 by simp
    have d0: "destroyed (rootStates w0 x) = (x = ?rid \<or> destroyed (rootStates w x))" for x
      using root_destroy_destroyed [of ?rid w x] w0 by simp
    have o0: "x \<noteq> ?rid \<Longrightarrow> rootStates w0 x = rootStates w x" for x
      using root_destroy_others [of x ?rid w] w0 by simp
    let ?w1 = "upd_array b (splice1 (int i)) w0"
    have eq: "cleanup_loop b v (Suc i) w = cleanup_loop b v i ?w1"
      using True w0 by simp
    have a1: "arrays ?w1 b = take i ?xs @ drop (Suc i) ?xs"
      using il by (simp add: splice1_nth f0)
    have d1: "distinct (arrays ?w1 b)"
      unfolding a1 using distinct_remove_nth(1) [OF Suc.prems(1) il] .
    have s1: "set (arrays ?w1 b) = set ?xs - {?rid}"
      unfolding a1 using distinct_remove_nth(2) [OF Suc.prems(1) il] .
    have l1: "i \<le> length (arrays ?w1 b)"
      unfolding a1 using il by simp
    have live1: "\<forall>x\<in>set (arrays ?w1 b). \<not> destroyed (rootStates ?w1 x)"
      using Suc.prems(3) s1 by (simp add: d0)
    from Suc.IH [OF d1 l1 live1] obtain w' where
      c0: "cleanup_loop b v i ?w1 = Inr w'"
      and c1: "arrays w' b = filter (\<lambda>x. \<not> isFor (rootStates ?w1 x) v) (take i (arrays ?w1 b))
                         @ drop i (arrays ?w1 b)"
      and c2: "\<forall>x. \<not> isFor (rootStates ?w1 x) v \<longrightarrow> rootStates w' x = rootStates ?w1 x"
      by blast
    have t1: "take i (arrays ?w1 b) = take i ?xs" and dr1: "drop i (arrays ?w1 b) = drop (Suc i) ?xs"
      unfolding a1 using il by simp_all
    have notin: "?rid \<notin> set (take i ?xs)"
      using Suc.prems(1) il by (metis distinct_take id_take_nth_drop distinct_append not_distinct_conv_prefix
          append_Cons in_set_conv_decomp)
    have fl: "filter (\<lambda>x. \<not> isFor (rootStates ?w1 x) v) (take i ?xs) = filter ?P (take i ?xs)"
    proof (rule filter_cong [OF refl])
      fix x assume "x \<in> set (take i ?xs)"
      with notin have "x \<noteq> ?rid" by auto
      then show "(\<not> isFor (rootStates ?w1 x) v) = (\<not> isFor (rootStates w x) v)"
        by (simp add: o0)
    qed
    have r1: "arrays w' b = filter ?P (take (Suc i) ?xs) @ drop (Suc i) ?xs"
      using c1 [unfolded t1 dr1 fl] True by (simp add: tk)
    have r2: "\<forall>x. ?P x \<longrightarrow> rootStates w' x = rootStates w x"
    proof (intro allI impI)
      fix x assume p: "?P x"
      with True have "x \<noteq> ?rid" by auto
      then have e: "rootStates ?w1 x = rootStates w x" by (simp add: o0)
      with p c2 show "rootStates w' x = rootStates w x" by simp
    qed
    from c0 r1 r2 show ?thesis unfolding eq by blast
  qed
qed

lemma cleanupRootFor_filter:
  assumes "idle_inv n0 r w" and "\<not> p_destroyed (rendererObjs w r)"
  shows "\<exists>w'. cleanupRootFor r v w = Inr w'
          \<and> roots_of r w' = filter (\<lambda>rid. \<not> isFor (rootStates w rid) v) (roots_of r w)
          \<and> (\<forall>rid\<in>set (roots_of r w). isFor (rootStates w rid) v \<longrightarrow> destroyed (rootStates w' rid))"
proof -
  let ?b = "p_roots (rendererObjs w r)"
  from assms(1) have d: "distinct (arrays w ?b)" and s: "set (arrays w ?b) = live_roots n0 w"
    by (simp_all add: idle_inv_def loop_inv_def roots_of_def)
  from s have live: "\<forall>x\<in>set (arrays w ?b). \<not> destroyed (rootStates w x)"
    by (simp add: live_roots_def)
  from cleanup_loop_filter [OF d le_refl live, of v] obtain w' where
    c0: "cleanup_loop ?b v (length (arrays w ?b)) w = Inr w'"
    and c1: "arrays w' ?b = filter (\<lambda>x. \<not> isFor (rootStates w x) v) (arrays w ?b)"
    by auto
  from cleanup_loop_effect [OF d le_refl live, of v] c0 have
    c4: "rendererObjs w' = rendererObjs w"
    and c7: "\<forall>x. destroyed (rootStates w' x)
              = (destroyed (rootStates w x) \<or> x \<in> set (arrays w ?b) - set (arrays w' ?b))"
    by auto
  have eq: "cleanupRootFor r v w = Inr w'"
    using assms(2) c0 by (simp add: cleanupRootFor_def Let_def)
  show ?thesis
    using eq c1 c4 c7 by (auto simp: roots_of_def)
qed

lemma compact_keeps_current_roots:
  assumes "loop_inv n0 r a w"
  shows "roots_of r (compact r a w) = roots_of r w
         \<and> rootStates (compact r a w) = rootStates w
         \<and> (\<forall>rid\<in>set (arrays w a). rid \<in> set (arrays (compact r a w) a) \<or> destroyed (rootStates w rid))"
proof (cases "p_roots (rendererObjs w r) = a")
  case True
  with assms have "p_removedRoots (rendererObjs w r) = []" by (simp add: loop_inv_def)
  then have "compact r a w = upd_renderer r (\<lambda>p. p\<lparr>p_removedRoots := []\<rparr>) w"
    by (simp add: compact_def upd_array_def)
  then show ?thesis by (simp add: roots_of_def)
next
  case False
  with assms have "\<forall>rid\<in>set (arrays w a). destroyed (rootStates w rid)" by (simp add: loop_inv_def)
  with False show ?thesis by (simp add: compact_def roots_of_def)
qed

subsection \<open>What a transaction queues, and what the compaction removes\<close>

text \<open>A pass that meets only destroyed roots queues each of them and renders nothing. A
  pass that starts on the current list either ends on it, or the list was replaced while
  the root at some index rendered, and the queue then holds the roots after that index.
  At the end of the loop the queue is empty, or a tail of the old array, or such a tail
  followed by the whole old array (when a further pass went over the old array).\<close>

lemma upd_renderer_same:
  "upd_renderer r (\<lambda>p. p\<lparr>p_removedRoots := p_removedRoots p @ []\<rparr>) w = w"
  by (simp add: upd_renderer_def)

lemma pass_loop_all_destroyed:
  "\<forall>rid\<in>set (drop i (arrays w a)). destroyed (rootStates w rid) \<Longrightarrow>
   pass_loop r a n i w
     = Inr (upd_renderer r (\<lambda>p. p\<lparr>p_removedRoots := p_removedRoots p @ drop i (arrays w a)\<rparr>) w)"
proof (induction "length (arrays w a) - i" arbitrary: i w)
  case 0
  then have "\<not> i < length (arrays w a)" by simp
  then show ?case
    by (simp add: pass_loop.simps [of r a n i w] upd_renderer_def)
next
  case (Suc k)
  let ?xs = "arrays w a"
  from Suc.hyps(2) have il: "i < length ?xs" by simp
  let ?rid = "?xs ! i"
  let ?w1 = "push_removed r ?rid w"
  have dr: "drop i ?xs = ?rid # drop (Suc i) ?xs"
    using il by (simp add: Cons_nth_drop_Suc)
  with Suc.prems have d: "destroyed (rootStates w ?rid)" by simp
  have a1: "arrays ?w1 = arrays w" and r1: "rootStates ?w1 = rootStates w"
    by (simp_all add: push_removed_def)
  have k: "k = length (arrays ?w1 a) - Suc i" using Suc.hyps(2) by (simp add: a1)
  have pre: "\<forall>rid\<in>set (drop (Suc i) (arrays ?w1 a)). destroyed (rootStates ?w1 rid)"
    using Suc.prems dr by (simp add: a1 r1)
  from Suc.hyps(1) [OF k pre]
  have "pass_loop r a n (Suc i) ?w1
     = Inr (upd_renderer r (\<lambda>p. p\<lparr>p_removedRoots := p_removedRoots p @ drop (Suc i) ?xs\<rparr>) ?w1)"
    by (simp add: a1)
  moreover have "pass_loop r a n i w = pass_loop r a n (Suc i) ?w1"
    using il d by (simp add: pass_loop.simps [of r a n i w])
  moreover have "upd_renderer r (\<lambda>p. p\<lparr>p_removedRoots := p_removedRoots p @ drop (Suc i) ?xs\<rparr>) ?w1
      = upd_renderer r (\<lambda>p. p\<lparr>p_removedRoots := p_removedRoots p @ drop i ?xs\<rparr>) w"
    by (simp add: upd_renderer_def push_removed_def dr)
  ultimately show ?case by simp
qed

lemma pass_loop_queue:
  "loop_inv n0 r a w \<Longrightarrow> p_roots (rendererObjs w r) = a \<Longrightarrow>
     p_roots (rendererObjs (world_of (pass_loop r a n i w)) r) = a
     \<or> (\<exists>m. p_removedRoots (rendererObjs (world_of (pass_loop r a n i w)) r)
              = drop m (arrays (world_of (pass_loop r a n i w)) a))"
proof (induction r a n i w rule: pass_loop.induct)
  case (1 r a n i w)
  note inv = "1.prems"(1) and cur = "1.prems"(2)
  show ?case
  proof (cases "i < length (arrays w a)")
    case False
    with cur show ?thesis by (simp add: pass_loop.simps [of r a n i w])
  next
    case inb: True
    let ?rid = "arrays w a ! i"
    have live: "\<not> destroyed (rootStates w ?rid)"
      using loop_inv_dead_old [OF inv inb] cur by blast
    from inv cur have q0: "p_removedRoots (rendererObjs w r) = []" by (simp add: loop_inv_def)
    show ?thesis
    proof (cases "n \<le> i")
      case True
      from "1.IH"(2) [OF inb live True inv cur] inb live True show ?thesis
        by (simp add: pass_loop.simps [of r a n i w])
    next
      case False
      note k = keeps_invoke_render [of n0 r a w ?rid]
      show ?thesis
      proof (cases "invoke_render r ?rid w")
        case (Inl e)
        obtain err w1 where e: "e = (err, w1)" by (cases e)
        from k Inl e inv q0 have "p_removedRoots (rendererObjs w1 r) = []"
          by (simp add: keeps_def)
        then have "p_removedRoots (rendererObjs w1 r) = drop (length (arrays w1 a)) (arrays w1 a)"
          by simp
        with Inl e inb live False show ?thesis
          by (auto simp: pass_loop.simps [of r a n i w])
      next
        case (Inr w1)
        from k Inr inv q0 have i1: "loop_inv n0 r a w1" and q1: "p_removedRoots (rendererObjs w1 r) = []"
          by (simp_all add: keeps_def)
        have step: "pass_loop r a n i w = pass_loop r a n (i + 1) w1"
          using inb live False Inr by (simp add: pass_loop.simps [of r a n i w])
        show ?thesis
        proof (cases "p_roots (rendererObjs w1 r) = a")
          case True
          from "1.IH"(3) [OF inb live False Inr i1 True] show ?thesis
            unfolding step .
        next
          case orphan: False
          with i1 have "\<forall>rid\<in>set (arrays w1 a). destroyed (rootStates w1 rid)"
            by (simp add: loop_inv_def)
          then have "\<forall>rid\<in>set (drop (i + 1) (arrays w1 a)). destroyed (rootStates w1 rid)"
            by (meson in_set_dropD)
          from pass_loop_all_destroyed [OF this, of r n]
          have "pass_loop r a n (i + 1) w1
                  = Inr (upd_renderer r (\<lambda>p. p\<lparr>p_removedRoots := p_removedRoots p
                                                   @ drop (i + 1) (arrays w1 a)\<rparr>) w1)" .
          then show ?thesis
            unfolding step using q1 by auto
        qed
      qed
    qed
  qed
qed

lemma renderRoots_loop_queue:
  assumes ret: "renderRoots_loop r0 a0 w0 = Some x0" and inv0: "loop_inv n0 r0 a0 w0"
      and cur0: "p_roots (rendererObjs w0 r0) = a0"
  shows "p_roots (rendererObjs (world_of x0) r0) = a0
         \<or> (\<exists>m. p_removedRoots (rendererObjs (world_of x0) r0) = drop m (arrays (world_of x0) a0)
                \<or> p_removedRoots (rendererObjs (world_of x0) r0)
                     = drop m (arrays (world_of x0) a0) @ arrays (world_of x0) a0)"
proof -
  let ?C = "\<lambda>r a x. p_roots (rendererObjs (world_of x) r) = a
         \<or> (\<exists>m. p_removedRoots (rendererObjs (world_of x) r) = drop m (arrays (world_of x) a)
                \<or> p_removedRoots (rendererObjs (world_of x) r)
                     = drop m (arrays (world_of x) a) @ arrays (world_of x) a)"
  let ?pre = "\<lambda>r a w. loop_inv n0 r a w
         \<and> (p_roots (rendererObjs w r) = a
             \<or> (\<exists>m. p_removedRoots (rendererObjs w r) = drop m (arrays w a)))"
  have "?pre r0 a0 w0 \<longrightarrow> ?C r0 a0 x0"
  proof (rule renderRoots_loop.raw_induct
      [where P = "\<lambda>r a w x. ?pre r a w \<longrightarrow> ?C r a x", OF _ ret])
    fix f r a w x
    assume IH: "\<And>r a w x. f r a w = Some x \<Longrightarrow> ?pre r a w \<longrightarrow> ?C r a x"
      and eq: "(case pass_loop r a (length (arrays w a)) 0 w of
                  Inl e \<Rightarrow> Some (Inl e)
                | Inr w1 \<Rightarrow>
                    if length (arrays w a) < length (arrays (commit_revision r w1) a)
                    then f r a (commit_revision r w1)
                    else Some (Inr (commit_revision r w1))) = Some x"
    show "?pre r a w \<longrightarrow> ?C r a x"
    proof
      assume pre: "?pre r a w"
      then have inv: "loop_inv n0 r a w" by simp
      let ?p = "pass_loop r a (length (arrays w a)) 0 w"
      note pi = pass_loop_inv [OF inv, of "length (arrays w a)" 0]
      show "?C r a x"
      proof (cases "p_roots (rendererObjs w r) = a")
        case cur: True
        note pq = pass_loop_queue [OF inv cur, of "length (arrays w a)" 0]
        show ?thesis
        proof (cases ?p)
          case (Inl e)
          with eq have "x = Inl e" by simp
          with pq Inl show ?thesis by auto
        next
          case (Inr w1)
          let ?w2 = "commit_revision r w1"
          from pi Inr have i2: "loop_inv n0 r a ?w2" by simp
          from pq Inr have q2: "p_roots (rendererObjs ?w2 r) = a
              \<or> (\<exists>m. p_removedRoots (rendererObjs ?w2 r) = drop m (arrays ?w2 a))"
            by (simp add: commit_revision_def)
          show ?thesis
          proof (cases "length (arrays w a) < length (arrays ?w2 a)")
            case True
            with Inr eq have "f r a ?w2 = Some x" by simp
            from IH [OF this] i2 q2 show ?thesis by blast
          next
            case False
            with Inr eq have "x = Inr ?w2" by simp
            with q2 show ?thesis by auto
          qed
        qed
      next
        case orphan: False
        with pre obtain m where q: "p_removedRoots (rendererObjs w r) = drop m (arrays w a)"
          by blast
        from inv orphan have "\<forall>rid\<in>set (drop 0 (arrays w a)). destroyed (rootStates w rid)"
          by (simp add: loop_inv_def)
        from pass_loop_all_destroyed [OF this, of r "length (arrays w a)"]
        have p: "?p = Inr (upd_renderer r (\<lambda>p. p\<lparr>p_removedRoots := p_removedRoots p @ arrays w a\<rparr>) w)"
          by simp
        then have "x = Inr (commit_revision r
                     (upd_renderer r (\<lambda>p. p\<lparr>p_removedRoots := p_removedRoots p @ arrays w a\<rparr>) w))"
          using eq by (simp add: commit_revision_def)
        then show ?thesis using q by (auto simp: commit_revision_def)
      qed
    qed
  qed
  with inv0 cur0 show ?thesis by simp
qed

lemma compact_loop_Nil [simp]: "compact_loop p [] = []"
  by (induction p) (simp_all add: splice1_def)

lemma compact_loop_append:
  "compact_loop (p1 @ p2) xs = compact_loop p2 (compact_loop p1 xs)"
  by (induction p1 arbitrary: xs) simp_all

lemma compact_loop_suffix:
  "distinct (xs @ ys) \<Longrightarrow> compact_loop (rev ys) (xs @ ys) = xs"
proof (induction ys rule: rev_induct)
  case Nil
  show ?case by simp
next
  case (snoc y ys)
  from snoc.prems have ny: "y \<notin> set (xs @ ys)" and d: "distinct (xs @ ys)" by auto
  have "indexOf ((xs @ ys) @ y # []) y = int (length (xs @ ys))"
    using ny by (rule indexOf_first)
  moreover have "splice1 (int (length (xs @ ys))) ((xs @ ys) @ y # []) = (xs @ ys) @ []"
    by (rule splice1_at)
  ultimately have "compact_loop (rev (ys @ [y])) (xs @ ys @ [y]) = compact_loop (rev ys) (xs @ ys)"
    by simp
  with snoc.IH [OF d] show ?case by simp
qed

lemma compact_loop_drop:
  "distinct xs \<Longrightarrow> compact_loop (rev (drop m xs)) xs = take m xs"
  using compact_loop_suffix [of "take m xs" "drop m xs"] by simp

lemma compact_loop_all:
  "distinct xs \<Longrightarrow> compact_loop (rev (q @ xs)) xs = []"
  using compact_loop_suffix [of "[]" xs] by (simp add: compact_loop_append)

lemma compact_after_loop:
  assumes ret: "renderRoots_loop r a w = Some x" and inv: "loop_inv n0 r a w"
      and cur: "p_roots (rendererObjs w r) = a"
  shows "roots_of r (compact r a (world_of x)) = roots_of r (world_of x)
       \<and> set (arrays (compact r a (world_of x)) a)
           = set (arrays (world_of x) a) - set (p_removedRoots (rendererObjs (world_of x) r))
       \<and> distinct (arrays (compact r a (world_of x)) a)
       \<and> (\<forall>rid\<in>set (p_removedRoots (rendererObjs (world_of x) r)).
             rid \<in> set (arrays (world_of x) a) \<and> destroyed (rootStates (world_of x) rid))
       \<and> (p_roots (rendererObjs (world_of x) r) = a \<longrightarrow>
             p_removedRoots (rendererObjs (world_of x) r) = [])"
proof -
  let ?w1 = "world_of x"
  let ?q = "p_removedRoots (rendererObjs ?w1 r)"
  let ?xs = "arrays ?w1 a"
  from renderRoots_loop_inv [OF ret inv] have i1: "loop_inv n0 r a ?w1" by simp
  then have d: "distinct ?xs" by (simp add: loop_inv_def)
  have keep: "roots_of r (compact r a ?w1) = roots_of r ?w1"
    using compact_keeps_current_roots [OF i1] by simp
  have arr: "arrays (compact r a ?w1) a = compact_loop (rev ?q) ?xs"
    by (simp add: compact_def)
  show ?thesis
  proof (cases "p_roots (rendererObjs ?w1 r) = a")
    case True
    with i1 have "?q = []" by (simp add: loop_inv_def)
    with keep d arr show ?thesis by simp
  next
    case False
    with i1 have dead: "\<forall>rid\<in>set ?xs. destroyed (rootStates ?w1 rid)" by (simp add: loop_inv_def)
    from renderRoots_loop_queue [OF ret inv cur] False obtain m where
      "?q = drop m ?xs \<or> ?q = drop m ?xs @ ?xs" by blast
    then show ?thesis
    proof
      assume q: "?q = drop m ?xs"
      have "arrays (compact r a ?w1) a = take m ?xs"
        unfolding arr q using d by (rule compact_loop_drop)
      moreover have u: "set ?xs = set (take m ?xs) \<union> set (drop m ?xs)"
        by (metis append_take_drop_id set_append)
      have dis: "set (take m ?xs) \<inter> set (drop m ?xs) = {}"
        using d by (metis append_take_drop_id distinct_append)
      from u dis have "set (take m ?xs) = set ?xs - set (drop m ?xs)" by blast
      moreover have "distinct (take m ?xs)" using d by simp
      moreover have "\<forall>rid\<in>set (drop m ?xs). rid \<in> set ?xs \<and> destroyed (rootStates ?w1 rid)"
        using dead by (meson in_set_dropD)
      ultimately show ?thesis
        using keep False by (simp add: q)
    next
      assume q: "?q = drop m ?xs @ ?xs"
      have "arrays (compact r a ?w1) a = []"
        unfolding arr q using d by (rule compact_loop_all)
      moreover have "\<forall>rid\<in>set (drop m ?xs @ ?xs). rid \<in> set ?xs \<and> destroyed (rootStates ?w1 rid)"
        using dead by (auto dest: in_set_dropD)
      ultimately show ?thesis
        using keep False by (simp add: q)
    qed
  qed
qed

subsection \<open>Passes over roots whose render functions only attach\<close>

lemma grows_refl [simp]: "wf_roots a w \<Longrightarrow> grows a w w"
  by (simp add: grows_def)

lemma grows_trans: "grows a w w1 \<Longrightarrow> grows a w1 w2 \<Longrightarrow> grows a w w2"
  by (auto simp: grows_def)

lemma benign_script_tl: "benign_script s \<Longrightarrow> benign_script (tl s)"
  by (cases s) (simp_all add: benign_script_def)

lemma benign_script_hd:
  "benign_script s \<Longrightarrow> \<forall>x\<in>set (case s of [] \<Rightarrow> [] | acts # _ \<Rightarrow> acts). benign x"
  by (cases s) (simp_all add: benign_script_def)

lemma pending_frame:
  "nextRoot w' = nextRoot w \<Longrightarrow>
   (\<And>rid. rid < nextRoot w \<Longrightarrow> script (rootStates w' rid) = script (rootStates w rid)) \<Longrightarrow>
   pending w' = pending w"
  by (simp add: pending_def)

lemma pending_alloc:
  "pending (snd (alloc_RootState v s w)) = pending w + script_weight s"
  by (simp add: pending_def alloc_RootState_def new_RootState_def)

lemma pending_script:
  assumes "rid < nextRoot w"
  shows "pending (upd_root rid (\<lambda>rs. rs\<lparr>script := s'\<rparr>) w) + script_weight (script (rootStates w rid))
         = pending w + script_weight s'"
proof -
  let ?A = "{..<nextRoot w}"
  let ?g = "\<lambda>x. script_weight (script (rootStates w x))"
  let ?w1 = "upd_root rid (\<lambda>rs. rs\<lparr>script := s'\<rparr>) w"
  let ?h = "\<lambda>x. script_weight (script (rootStates ?w1 x))"
  have fin: "finite ?A" and mem: "rid \<in> ?A" using assms by simp_all
  have a: "sum ?g ?A = ?g rid + sum ?g (?A - {rid})" by (rule sum.remove [OF fin mem])
  have b: "sum ?h ?A = ?h rid + sum ?h (?A - {rid})" by (rule sum.remove [OF fin mem])
  have c: "sum ?h (?A - {rid}) = sum ?g (?A - {rid})"
    by (rule sum.cong) (simp_all add: upd_root_def)
  have d: "?h rid = script_weight s'" by (simp add: upd_root_def)
  show ?thesis
    using a b c d by (simp add: pending_def)
qed

lemma script_weight_Cons:
  "script_weight (acts # rest) = Suc (sum_list (map action_weight acts)) + script_weight rest"
  by (simp add: script_weight_def)

lemma script_weight_tl:
  "script_weight (tl s) + sum_list (map action_weight (case s of [] \<Rightarrow> [] | acts # _ \<Rightarrow> acts))
     \<le> script_weight s"
  by (cases s) (simp_all add: script_weight_def)

lemma exec_action_benign:
  assumes b: "benign x" and wf: "wf_roots a w"
      and cur: "p_roots (rendererObjs w r) = a" and ne: "arrays w a \<noteq> []"
  shows "\<exists>w'. exec_action r x w = Inr w' \<and> grows a w w' \<and> trace w' = trace w
           \<and> potential a w' = potential a w + action_weight x"
proof (cases x)
  case (Attach v s)
  let ?rid = "nextRoot w"
  let ?w1 = "snd (alloc_RootState v s w)"
  let ?w2 = "upd_array a (\<lambda>xs. xs @ [?rid]) ?w1"
  from ne have len: "length (arrays ?w2 a) \<noteq> 1"
    by (cases "arrays w a") (simp_all add: alloc_RootState_def)
  have ex: "exec_action r x w = Inr ?w2"
    using Attach cur len by (simp add: alloc_RootState_def renderRoot_enqueue_def Let_def)
  from b Attach have bs: "benign_script s" by (simp add: benign_script_def)
  have "wf_roots a ?w2"
    using wf bs
    by (auto simp: wf_roots_def alloc_RootState_def new_RootState_def good_root_def
        errorLoopTransaction_def)
  then have "grows a w ?w2"
    by (simp add: grows_def alloc_RootState_def)
  moreover have "trace ?w2 = trace w" by (simp add: alloc_RootState_def)
  moreover have "potential a ?w2 = potential a w + action_weight x"
  proof -
    have pa: "pending ?w1 = pending w + script_weight s" by (rule pending_alloc)
    have pw: "pending ?w2 = pending ?w1" by (rule pending_frame) simp_all
    have ln: "length (arrays ?w2 a) = Suc (length (arrays w a))"
      by (simp add: alloc_RootState_def)
    have aw: "action_weight x = Suc (script_weight s)"
      using Attach by (simp add: script_weight_def)
    show ?thesis unfolding potential_def pw pa ln aw by simp
  qed
  ultimately show ?thesis using ex by blast
next
  case Dirty
  have "grows a w (w\<lparr>revision := revision w + 1\<rparr>)"
    using wf by (simp add: grows_def wf_roots_def)
  moreover have "potential a (w\<lparr>revision := revision w + 1\<rparr>) = potential a w"
    by (simp add: potential_def pending_def)
  ultimately show ?thesis using Dirty by simp
qed (use b in simp_all)

lemma exec_actions_benign:
  assumes "\<forall>x\<in>set xs. benign x" and "wf_roots a w"
      and "p_roots (rendererObjs w r) = a" and "arrays w a \<noteq> []"
  shows "\<exists>w'. exec_actions r xs w = Inr w' \<and> grows a w w' \<and> trace w' = trace w
           \<and> potential a w' = potential a w + sum_list (map action_weight xs)"
  using assms
proof (induction xs arbitrary: w)
  case Nil
  then show ?case by simp
next
  case (Cons x xs)
  from Cons.prems have bx: "benign x" and bxs: "\<forall>x\<in>set xs. benign x" by simp_all
  from exec_action_benign [OF bx Cons.prems(2) Cons.prems(3) Cons.prems(4)]
  obtain w1 where e1: "exec_action r x w = Inr w1" and g1: "grows a w w1" and t1: "trace w1 = trace w"
    and p1: "potential a w1 = potential a w + action_weight x"
    by blast
  from g1 have wf1: "wf_roots a w1" and cur1: "p_roots (rendererObjs w1 r) = a"
    and ne1: "arrays w1 a \<noteq> []"
    using Cons.prems(3) Cons.prems(4) by (auto simp: grows_def prefix_def)
  from Cons.IH [OF bxs wf1 cur1 ne1]
  obtain w2 where e2: "exec_actions r xs w1 = Inr w2" and g2: "grows a w1 w2" and t2: "trace w2 = trace w1"
    and p2: "potential a w2 = potential a w1 + sum_list (map action_weight xs)"
    by blast
  from e1 e2 grows_trans [OF g1 g2] t1 t2 p1 p2 show ?case by simp
qed

lemma vm_run_good:
  assumes wf: "wf_roots a w" and cur: "p_roots (rendererObjs w r) = a"
      and mem: "rid \<in> set (arrays w a)"
  shows "\<exists>w'. vm_run r rid w = Inr w' \<and> grows a w w' \<and> trace w' = trace w @ [Rendered rid]
           \<and> potential a w' \<le> potential a w"
proof -
  let ?s = "script (rootStates w rid)"
  let ?acts = "case ?s of [] \<Rightarrow> [] | acts # _ \<Rightarrow> acts"
  let ?w1 = "upd_root rid (\<lambda>rs. rs\<lparr>script := tl ?s\<rparr>) w"
  let ?w2 = "?w1\<lparr>trace := trace ?w1 @ [Rendered rid]\<rparr>"
  from wf mem have g: "good_root (rootStates w rid)" and lt: "rid < nextRoot w"
    by (simp_all add: wf_roots_def)
  then have bs: "benign_script ?s" by (simp add: good_root_def)
  have wf2: "wf_roots a ?w2"
    using wf benign_script_tl [OF bs] by (auto simp: wf_roots_def good_root_def)
  have g2: "grows a w ?w2" using wf2 by (simp add: grows_def)
  have cur2: "p_roots (rendererObjs ?w2 r) = a" using cur by simp
  have ne2: "arrays ?w2 a \<noteq> []" using mem by auto
  from exec_actions_benign [OF benign_script_hd [OF bs] wf2 cur2 ne2]
  obtain w' where e: "exec_actions r ?acts ?w2 = Inr w'"
    and g': "grows a ?w2 w'" and t: "trace w' = trace ?w2"
    and p: "potential a w' = potential a ?w2 + sum_list (map action_weight ?acts)"
    by blast
  have "pending ?w2 = pending ?w1" by (rule pending_frame) simp_all
  with pending_script [OF lt, of "tl ?s"]
  have "pending ?w2 + script_weight ?s = pending w + script_weight (tl ?s)" by simp
  with script_weight_tl [of ?s] have "pending ?w2 + sum_list (map action_weight ?acts) \<le> pending w"
    by simp
  with p have pot: "potential a w' \<le> potential a w" by (simp add: potential_def)
  from e have "vm_run r rid w = Inr w'" by (simp add: vm_run_def Let_def)
  moreover from t have "trace w' = trace w @ [Rendered rid]" by simp
  ultimately show ?thesis using grows_trans [OF g2 g'] pot by blast
qed

lemma run_closure_good:
  assumes wf: "wf_roots a w" and cur: "p_roots (rendererObjs w r) = a"
      and mem: "rid \<in> set (arrays w a)"
  shows "\<exists>w' ev. run_closure fn r rid w = Inr w' \<and> grows a w w' \<and> trace w' = trace w @ [ev]
            \<and> event_root ev = Some rid \<and> potential a w' \<le> potential a w"
proof (cases fn)
  case InitialRender
  from vm_run_good [OF wf cur mem] obtain w1 where
    v: "vm_run r rid w = Inr w1" and g1: "grows a w w1" and t1: "trace w1 = trace w @ [Rendered rid]"
    and p1: "potential a w1 \<le> potential a w"
    by blast
  let ?w2 = "upd_root rid (\<lambda>rs. rs\<lparr>result := Some RenderResult,
                render := errorLoopTransaction (DEBUG w1) Rerender\<rparr>) w1"
  from g1 have wf1: "wf_roots a w1" by (simp add: grows_def)
  have "wf_roots a ?w2"
    using wf1 by (auto simp: wf_roots_def good_root_def errorLoopTransaction_def)
  with g1 have "grows a w ?w2" by (simp add: grows_def)
  moreover have "run_closure fn r rid w = Inr ?w2" using InitialRender v by simp
  moreover have "trace ?w2 = trace w @ [Rendered rid]" using t1 by simp
  moreover have "pending ?w2 = pending w1"
    by (rule pending_frame) (simp_all add: upd_root_def)
  then have "potential a ?w2 \<le> potential a w" using p1 by (simp add: potential_def)
  ultimately show ?thesis by (metis event_root.simps(1))
next
  case Rerender
  with vm_run_good [OF wf cur mem] show ?thesis by (metis event_root.simps(1) run_closure.simps(2))
next
  case WarnNoop
  have "grows a w (w\<lparr>trace := trace w @ [Warned rid]\<rparr>)"
    using wf by (simp add: grows_def wf_roots_def)
  moreover have "potential a (w\<lparr>trace := trace w @ [Warned rid]\<rparr>) = potential a w"
    by (simp add: potential_def pending_def)
  ultimately show ?thesis using WarnNoop by (simp add: exI [of _ "Warned rid"])
qed

lemma invoke_render_good:
  assumes wf: "wf_roots a w" and cur: "p_roots (rendererObjs w r) = a"
      and mem: "rid \<in> set (arrays w a)"
  shows "\<exists>w' ev. invoke_render r rid w = Inr w' \<and> grows a w w' \<and> trace w' = trace w @ [ev]
            \<and> event_root ev = Some rid \<and> potential a w' \<le> potential a w"
proof (cases "render (rootStates w rid)")
  case (Wrapped fn)
  from run_closure_good [OF wf cur mem, of fn] obtain w' ev where
    "run_closure fn r rid w = Inr w'" "grows a w w'" "trace w' = trace w @ [ev]" "event_root ev = Some rid"
    "potential a w' \<le> potential a w"
    by blast
  with Wrapped show ?thesis by (simp add: invoke_render_def)
next
  case (Unwrapped fn)
  with run_closure_good [OF wf cur mem, of fn] show ?thesis by (simp add: invoke_render_def)
next
  case NoRender
  with wf mem show ?thesis by (simp add: wf_roots_def good_root_def)
qed

lemma pass_events_Nil [simp]: "pass_events [] []"
  by (simp add: pass_events_def)

lemma pass_loop_good:
  "wf_roots a w \<Longrightarrow> p_roots (rendererObjs w r) = a \<Longrightarrow> n \<le> length (arrays w a) \<Longrightarrow>
   \<exists>w' evs. pass_loop r a n i w = Inr w' \<and> grows a w w' \<and> trace w' = trace w @ evs
      \<and> pass_events (drop i (take n (arrays w a))) evs \<and> potential a w' \<le> potential a w"
proof (induction r a n i w rule: pass_loop.induct)
  case (1 r a n i w)
  note wf = "1.prems"(1) and cur = "1.prems"(2) and nl = "1.prems"(3)
  show ?case
  proof (cases "i < length (arrays w a)")
    case False
    with wf nl show ?thesis by (simp add: pass_loop.simps [of r a n i w])
  next
    case inb: True
    let ?rid = "arrays w a ! i"
    from inb have mem: "?rid \<in> set (arrays w a)" by simp
    with wf have live: "\<not> destroyed (rootStates w ?rid)"
      by (simp add: wf_roots_def good_root_def)
    show ?thesis
    proof (cases "n \<le> i")
      case True
      from "1.IH"(2) [OF inb live True wf cur nl] obtain w' evs where
        p: "pass_loop r a n (i + 1) w = Inr w'" and g: "grows a w w'" and t: "trace w' = trace w @ evs"
        and ev: "pass_events (drop (i + 1) (take n (arrays w a))) evs"
        and po: "potential a w' \<le> potential a w"
        by blast
      from True ev have "pass_events (drop i (take n (arrays w a))) evs" by simp
      with p g t po inb live True show ?thesis by (simp add: pass_loop.simps [of r a n i w])
    next
      case False
      from invoke_render_good [OF wf cur mem] obtain w1 e1 where
        r1: "invoke_render r ?rid w = Inr w1" and g1: "grows a w w1"
        and t1: "trace w1 = trace w @ [e1]" and er: "event_root e1 = Some ?rid"
        and po1: "potential a w1 \<le> potential a w"
        by blast
      from g1 have wf1: "wf_roots a w1" and cur1: "p_roots (rendererObjs w1 r) = a"
        and pre: "prefix (arrays w a) (arrays w1 a)"
        using cur by (simp_all add: grows_def)
      from pre nl have nl1: "n \<le> length (arrays w1 a)"
        using prefix_length_le by fastforce
      from pre nl have tk: "take n (arrays w1 a) = take n (arrays w a)"
        by (auto simp: prefix_def)
      from "1.IH"(3) [OF inb live False r1 wf1 cur1 nl1] obtain w' evs where
        p: "pass_loop r a n (i + 1) w1 = Inr w'" and g: "grows a w1 w'" and t: "trace w' = trace w1 @ evs"
        and ev: "pass_events (drop (i + 1) (take n (arrays w1 a))) evs"
        and po: "potential a w' \<le> potential a w1"
        by blast
      from False inb have il: "i < length (take n (arrays w a))" by simp
      from False have "take n (arrays w a) ! i = ?rid" by simp
      with Cons_nth_drop_Suc [OF il]
      have "drop i (take n (arrays w a)) = ?rid # drop (i + 1) (take n (arrays w a))"
        by simp
      with ev er tk have "pass_events (drop i (take n (arrays w a))) (e1 # evs)"
        by (simp add: pass_events_def)
      moreover from p r1 inb live False have "pass_loop r a n i w = Inr w'"
        by (simp add: pass_loop.simps [of r a n i w])
      moreover from t t1 have "trace w' = trace w @ (e1 # evs)" by simp
      moreover from po po1 have "potential a w' \<le> potential a w" by simp
      ultimately show ?thesis using grows_trans [OF g1 g] by blast
    qed
  qed
qed

lemma wf_roots_commit [simp]: "wf_roots a (commit_revision r w) = wf_roots a w"
  by (simp add: wf_roots_def commit_revision_def)

lemma one_pass_good:
  assumes wf: "wf_roots a w" and cur: "p_roots (rendererObjs w r) = a"
  shows "\<exists>w2 evs. one_pass r a w = Inr w2 \<and> wf_roots a w2
           \<and> prefix (arrays w a) (arrays w2 a)
           \<and> (\<exists>n. rendererObjs w2 = (rendererObjs w)(r := (rendererObjs w r)\<lparr>p_lastRevision := n\<rparr>))
           \<and> renderers w2 = renderers w
           \<and> trace w2 = trace w @ evs \<and> pass_events (arrays w a) evs
           \<and> pending w2 + length (arrays w2 a) \<le> pending w + length (arrays w a)"
proof -
  from pass_loop_good [OF wf cur le_refl, of 0] obtain w1 evs where
    p: "pass_loop r a (length (arrays w a)) 0 w = Inr w1" and g: "grows a w w1"
    and t: "trace w1 = trace w @ evs" and ev: "pass_events (arrays w a) evs"
    and po: "potential a w1 \<le> potential a w"
    by auto
  let ?w2 = "commit_revision r w1"
  have "one_pass r a w = Inr ?w2" using p by (simp add: one_pass_def)
  moreover from g have "wf_roots a ?w2" by (simp add: grows_def)
  moreover from g have "prefix (arrays w a) (arrays ?w2 a)"
    by (simp add: grows_def commit_revision_def)
  moreover from g have "rendererObjs ?w2
      = (rendererObjs w)(r := (rendererObjs w r)\<lparr>p_lastRevision := revision w1\<rparr>)"
    by (simp add: grows_def commit_revision_def valueForTag_CURRENT_def)
  moreover from g have "renderers ?w2 = renderers w" by (simp add: grows_def commit_revision_def)
  moreover from t have "trace ?w2 = trace w @ evs" by (simp add: commit_revision_def)
  moreover have "pending ?w2 = pending w1"
    by (rule pending_frame) (simp_all add: commit_revision_def)
  then have "pending ?w2 + length (arrays ?w2 a) \<le> pending w + length (arrays w a)"
    using po by (simp add: potential_def commit_revision_def)
  ultimately show ?thesis using ev by blast
qed

lemma renderRoots_loop_one_pass:
  "renderRoots_loop r a w =
     (case one_pass r a w of
        Inl e \<Rightarrow> Some (Inl e)
      | Inr w2 \<Rightarrow> if length (arrays w a) < length (arrays w2 a)
                   then renderRoots_loop r a w2 else Some (Inr w2))"
  by (subst renderRoots_loop.simps) (simp add: one_pass_def split: sum.splits)

lemma renderRoots_loop_run:
  assumes "wf_roots a w" and "p_roots (rendererObjs w r) = a"
  shows "\<exists>ss. 2 \<le> length ss \<and> hd ss = w \<and> renderRoots_loop r a w = Some (Inr (last ss))
     \<and> (\<forall>k<length ss. wf_roots a (ss ! k) \<and> renderers (ss ! k) = renderers w
           \<and> (\<exists>n. rendererObjs (ss ! k)
                     = (rendererObjs w)(r := (rendererObjs w r)\<lparr>p_lastRevision := n\<rparr>)))
     \<and> (\<forall>k. Suc k < length ss \<longrightarrow>
           one_pass r a (ss ! k) = Inr (ss ! Suc k)
           \<and> (\<exists>evs. trace (ss ! Suc k) = trace (ss ! k) @ evs
                    \<and> pass_events (arrays (ss ! k) a) evs)
           \<and> prefix (arrays (ss ! k) a) (arrays (ss ! Suc k) a)
           \<and> (length (arrays (ss ! k) a) < length (arrays (ss ! Suc k) a)
                \<longleftrightarrow> Suc (Suc k) < length ss))"
  using assms
proof (induction "pending w" arbitrary: w rule: less_induct)
  case less
  note wf = less.prems(1) and cur = less.prems(2)
  from one_pass_good [OF wf cur] obtain w2 evs n where
    op: "one_pass r a w = Inr w2" and wf2: "wf_roots a w2"
    and pr: "prefix (arrays w a) (arrays w2 a)"
    and ro: "rendererObjs w2 = (rendererObjs w)(r := (rendererObjs w r)\<lparr>p_lastRevision := n\<rparr>)"
    and rs: "renderers w2 = renderers w"
    and t: "trace w2 = trace w @ evs" and ev: "pass_events (arrays w a) evs"
    and po: "pending w2 + length (arrays w2 a) \<le> pending w + length (arrays w a)"
    by blast
  have self: "(rendererObjs w)(r := (rendererObjs w r)\<lparr>p_lastRevision := p_lastRevision (rendererObjs w r)\<rparr>)
                = rendererObjs w"
    by simp
  show ?case
  proof (cases "length (arrays w a) < length (arrays w2 a)")
    case False
    have l: "renderRoots_loop r a w = Some (Inr w2)"
      using op False by (simp add: renderRoots_loop_one_pass)
    have A: "\<forall>k<length [w, w2]. wf_roots a ([w, w2] ! k) \<and> renderers ([w, w2] ! k) = renderers w
           \<and> (\<exists>n. rendererObjs ([w, w2] ! k)
                     = (rendererObjs w)(r := (rendererObjs w r)\<lparr>p_lastRevision := n\<rparr>))"
    proof (intro allI impI)
      fix k assume "k < length [w, w2]"
      then have "k = 0 \<or> k = 1" by auto
      then show "wf_roots a ([w, w2] ! k) \<and> renderers ([w, w2] ! k) = renderers w
           \<and> (\<exists>n. rendererObjs ([w, w2] ! k)
                     = (rendererObjs w)(r := (rendererObjs w r)\<lparr>p_lastRevision := n\<rparr>))"
        using wf wf2 rs ro self by (metis nth_Cons_0 One_nat_def nth_Cons_Suc)
    qed
    have B: "\<forall>k. Suc k < length [w, w2] \<longrightarrow>
           one_pass r a ([w, w2] ! k) = Inr ([w, w2] ! Suc k)
           \<and> (\<exists>evs. trace ([w, w2] ! Suc k) = trace ([w, w2] ! k) @ evs
                    \<and> pass_events (arrays ([w, w2] ! k) a) evs)
           \<and> prefix (arrays ([w, w2] ! k) a) (arrays ([w, w2] ! Suc k) a)
           \<and> (length (arrays ([w, w2] ! k) a) < length (arrays ([w, w2] ! Suc k) a)
                \<longleftrightarrow> Suc (Suc k) < length [w, w2])"
    proof (intro allI impI)
      fix k assume "Suc k < length [w, w2]"
      then have k: "k = 0" by simp
      show "one_pass r a ([w, w2] ! k) = Inr ([w, w2] ! Suc k)
           \<and> (\<exists>evs. trace ([w, w2] ! Suc k) = trace ([w, w2] ! k) @ evs
                    \<and> pass_events (arrays ([w, w2] ! k) a) evs)
           \<and> prefix (arrays ([w, w2] ! k) a) (arrays ([w, w2] ! Suc k) a)
           \<and> (length (arrays ([w, w2] ! k) a) < length (arrays ([w, w2] ! Suc k) a)
                \<longleftrightarrow> Suc (Suc k) < length [w, w2])"
        unfolding k using op t ev pr False by auto
    qed
    from l A B show ?thesis
      by (intro exI [of _ "[w, w2]"]) simp
  next
    case True
    with po have "pending w2 < pending w" by simp
    from ro cur have cur2: "p_roots (rendererObjs w2 r) = a" by simp
    from less.hyps [OF \<open>pending w2 < pending w\<close> wf2 cur2] obtain ss where
      len: "2 \<le> length ss" and hd: "hd ss = w2"
      and l2: "renderRoots_loop r a w2 = Some (Inr (last ss))"
      and A2: "\<forall>k<length ss. wf_roots a (ss ! k) \<and> renderers (ss ! k) = renderers w2
           \<and> (\<exists>n. rendererObjs (ss ! k)
                     = (rendererObjs w2)(r := (rendererObjs w2 r)\<lparr>p_lastRevision := n\<rparr>))"
      and B2: "\<forall>k. Suc k < length ss \<longrightarrow>
           one_pass r a (ss ! k) = Inr (ss ! Suc k)
           \<and> (\<exists>evs. trace (ss ! Suc k) = trace (ss ! k) @ evs
                    \<and> pass_events (arrays (ss ! k) a) evs)
           \<and> prefix (arrays (ss ! k) a) (arrays (ss ! Suc k) a)
           \<and> (length (arrays (ss ! k) a) < length (arrays (ss ! Suc k) a)
                \<longleftrightarrow> Suc (Suc k) < length ss)"
      by blast
    from len have ne: "ss \<noteq> []" by auto
    with hd have s0: "ss ! 0 = w2" by (simp add: hd_conv_nth)
    have l: "renderRoots_loop r a w = Some (Inr (last (w # ss)))"
      using op True l2 ne by (simp add: renderRoots_loop_one_pass)
    have A: "\<forall>k<length (w # ss). wf_roots a ((w # ss) ! k) \<and> renderers ((w # ss) ! k) = renderers w
           \<and> (\<exists>n. rendererObjs ((w # ss) ! k)
                     = (rendererObjs w)(r := (rendererObjs w r)\<lparr>p_lastRevision := n\<rparr>))"
    proof (intro allI impI)
      fix k assume kl: "k < length (w # ss)"
      show "wf_roots a ((w # ss) ! k) \<and> renderers ((w # ss) ! k) = renderers w
           \<and> (\<exists>n. rendererObjs ((w # ss) ! k)
                     = (rendererObjs w)(r := (rendererObjs w r)\<lparr>p_lastRevision := n\<rparr>))"
      proof (cases k)
        case 0
        with wf self show ?thesis by (metis nth_Cons_0)
      next
        case (Suc j)
        with kl have "j < length ss" by simp
        with A2 obtain m where "wf_roots a (ss ! j)" "renderers (ss ! j) = renderers w2"
          "rendererObjs (ss ! j) = (rendererObjs w2)(r := (rendererObjs w2 r)\<lparr>p_lastRevision := m\<rparr>)"
          by blast
        then have "wf_roots a (ss ! j)" "renderers (ss ! j) = renderers w"
          "rendererObjs (ss ! j) = (rendererObjs w)(r := (rendererObjs w r)\<lparr>p_lastRevision := m\<rparr>)"
          using rs ro by simp_all
        with Suc show ?thesis by auto
      qed
    qed
    have B: "\<forall>k. Suc k < length (w # ss) \<longrightarrow>
           one_pass r a ((w # ss) ! k) = Inr ((w # ss) ! Suc k)
           \<and> (\<exists>evs. trace ((w # ss) ! Suc k) = trace ((w # ss) ! k) @ evs
                    \<and> pass_events (arrays ((w # ss) ! k) a) evs)
           \<and> prefix (arrays ((w # ss) ! k) a) (arrays ((w # ss) ! Suc k) a)
           \<and> (length (arrays ((w # ss) ! k) a) < length (arrays ((w # ss) ! Suc k) a)
                \<longleftrightarrow> Suc (Suc k) < length (w # ss))"
    proof (intro allI impI)
      fix k assume kl: "Suc k < length (w # ss)"
      show "one_pass r a ((w # ss) ! k) = Inr ((w # ss) ! Suc k)
           \<and> (\<exists>evs. trace ((w # ss) ! Suc k) = trace ((w # ss) ! k) @ evs
                    \<and> pass_events (arrays ((w # ss) ! k) a) evs)
           \<and> prefix (arrays ((w # ss) ! k) a) (arrays ((w # ss) ! Suc k) a)
           \<and> (length (arrays ((w # ss) ! k) a) < length (arrays ((w # ss) ! Suc k) a)
                \<longleftrightarrow> Suc (Suc k) < length (w # ss))"
      proof (cases k)
        case 0
        show ?thesis unfolding 0 using op t ev pr True len s0 by auto
      next
        case (Suc j)
        with kl have "Suc j < length ss" by simp
        with B2 have "one_pass r a (ss ! j) = Inr (ss ! Suc j)
           \<and> (\<exists>evs. trace (ss ! Suc j) = trace (ss ! j) @ evs
                    \<and> pass_events (arrays (ss ! j) a) evs)
           \<and> prefix (arrays (ss ! j) a) (arrays (ss ! Suc j) a)
           \<and> (length (arrays (ss ! j) a) < length (arrays (ss ! Suc j) a)
                \<longleftrightarrow> Suc (Suc j) < length ss)"
          by blast
        then show ?thesis unfolding Suc by simp
      qed
    qed
    from l A B len show ?thesis
      by (intro exI [of _ "w # ss"]) simp
  qed
qed

lemma renderRootsTransaction_run:
  assumes idle: "\<not> p_inRenderTransaction (rendererObjs w r)"
      and rm: "p_removedRoots (rendererObjs w r) = []"
      and wf: "wf_roots (p_roots (rendererObjs w r)) w"
      and ne: "roots_of r w \<noteq> []"
  shows "\<exists>w' ss. renderRootsTransaction r w = Some (Inr w')
           \<and> wf_roots (p_roots (rendererObjs w' r)) w'
           \<and> \<not> p_inRenderTransaction (rendererObjs w' r)
           \<and> p_removedRoots (rendererObjs w' r) = []
           \<and> renderers w' = renderers w
           \<and> p_roots (rendererObjs w' r) = p_roots (rendererObjs w r)
           \<and> 2 \<le> length ss
           \<and> hd ss = upd_renderer r (\<lambda>p. p\<lparr>p_inRenderTransaction := True\<rparr>) w
           \<and> arrays w' = arrays (last ss) \<and> trace w' = trace (last ss)
           \<and> (\<forall>k<length ss. p_roots (rendererObjs (ss ! k) r) = p_roots (rendererObjs w r))
           \<and> (\<forall>k. Suc k < length ss \<longrightarrow>
                 one_pass r (p_roots (rendererObjs w r)) (ss ! k) = Inr (ss ! Suc k)
                 \<and> (\<exists>evs. trace (ss ! Suc k) = trace (ss ! k) @ evs
                          \<and> pass_events (roots_of r (ss ! k)) evs)
                 \<and> prefix (roots_of r (ss ! k)) (roots_of r (ss ! Suc k))
                 \<and> (length (roots_of r (ss ! k)) < length (roots_of r (ss ! Suc k))
                      \<longleftrightarrow> Suc (Suc k) < length ss))"
proof -
  let ?a = "p_roots (rendererObjs w r)"
  let ?w0 = "upd_renderer r (\<lambda>p. p\<lparr>p_inRenderTransaction := True\<rparr>) w"
  have wf0: "wf_roots ?a ?w0" using wf by (simp add: wf_roots_def)
  have cur0: "p_roots (rendererObjs ?w0 r) = ?a" by simp
  from renderRoots_loop_run [OF wf0 cur0] obtain ss where
    len: "2 \<le> length ss" and hd: "hd ss = ?w0"
    and l: "renderRoots_loop r ?a ?w0 = Some (Inr (last ss))"
    and A: "\<forall>k<length ss. wf_roots ?a (ss ! k) \<and> renderers (ss ! k) = renderers ?w0
           \<and> (\<exists>n. rendererObjs (ss ! k)
                     = (rendererObjs ?w0)(r := (rendererObjs ?w0 r)\<lparr>p_lastRevision := n\<rparr>))"
    and B: "\<forall>k. Suc k < length ss \<longrightarrow>
           one_pass r ?a (ss ! k) = Inr (ss ! Suc k)
           \<and> (\<exists>evs. trace (ss ! Suc k) = trace (ss ! k) @ evs
                    \<and> pass_events (arrays (ss ! k) ?a) evs)
           \<and> prefix (arrays (ss ! k) ?a) (arrays (ss ! Suc k) ?a)
           \<and> (length (arrays (ss ! k) ?a) < length (arrays (ss ! Suc k) ?a)
                \<longleftrightarrow> Suc (Suc k) < length ss)"
    by blast
  from len have nes: "ss \<noteq> []" by auto
  have pk: "p_roots (rendererObjs (ss ! k) r) = ?a \<and> p_removedRoots (rendererObjs (ss ! k) r) = []
            \<and> p_inRenderTransaction (rendererObjs (ss ! k) r)"
    if "k < length ss" for k
  proof -
    from A that obtain n where
      "rendererObjs (ss ! k) = (rendererObjs ?w0)(r := (rendererObjs ?w0 r)\<lparr>p_lastRevision := n\<rparr>)"
      by blast
    then show ?thesis using rm by simp
  qed
  have rk: "roots_of r (ss ! k) = arrays (ss ! k) ?a" if "k < length ss" for k
    using pk [OF that] by (simp add: roots_of_def)
  let ?w1 = "last ss"
  have lastk: "?w1 = ss ! (length ss - 1)" using nes by (rule last_conv_nth)
  have ll: "length ss - 1 < length ss" using nes by simp
  from pk [OF ll] have cur1: "p_roots (rendererObjs ?w1 r) = ?a"
    and rm1: "p_removedRoots (rendererObjs ?w1 r) = []"
    by (simp_all add: lastk)
  from A ll have wf1: "wf_roots ?a ?w1" and rs1: "renderers ?w1 = renderers w"
    by (simp_all add: lastk)
  have pre0: "prefix (arrays (ss ! 0) ?a) (arrays (ss ! k) ?a)" if "k < length ss" for k
    using that
  proof (induction k)
    case 0
    show ?case by simp
  next
    case (Suc k)
    then have "prefix (arrays (ss ! 0) ?a) (arrays (ss ! k) ?a)" by simp
    moreover from B Suc.prems have "prefix (arrays (ss ! k) ?a) (arrays (ss ! Suc k) ?a)" by blast
    ultimately show ?case by (rule prefix_order.trans)
  qed
  have s0: "ss ! 0 = ?w0" using hd nes by (simp add: hd_conv_nth)
  have "prefix (arrays ?w0 ?a) (arrays ?w1 ?a)"
    using pre0 [OF ll] unfolding s0 lastk [symmetric] .
  with ne have ne1: "arrays ?w1 ?a \<noteq> []"
    by (auto simp: roots_of_def prefix_def)
  let ?w2 = "compact r ?a ?w1"
  have c: "?w2 = upd_renderer r (\<lambda>p. p\<lparr>p_removedRoots := []\<rparr>) ?w1"
    using rm1 by (simp add: compact_def upd_array_def)
  have "roots_of r ?w2 \<noteq> []" using ne1 cur1 by (simp add: c roots_of_def)
  with l have y: "renderRoots r ?w0 = Some (Inr ?w2)" by (simp add: renderRoots_def Let_def)
  let ?w' = "upd_renderer r (\<lambda>p. p\<lparr>p_inRenderTransaction := False\<rparr>) ?w2"
  have tx: "renderRootsTransaction r w = Some (Inr ?w')"
    using idle y by (simp add: renderRootsTransaction_def)
  have p': "p_roots (rendererObjs ?w' r) = ?a" using cur1 by (simp add: c)
  have wf': "wf_roots (p_roots (rendererObjs ?w' r)) ?w'"
    unfolding p' using wf1 by (simp add: c wf_roots_def)
  have C: "\<forall>k. Suc k < length ss \<longrightarrow>
                 one_pass r ?a (ss ! k) = Inr (ss ! Suc k)
                 \<and> (\<exists>evs. trace (ss ! Suc k) = trace (ss ! k) @ evs
                          \<and> pass_events (roots_of r (ss ! k)) evs)
                 \<and> prefix (roots_of r (ss ! k)) (roots_of r (ss ! Suc k))
                 \<and> (length (roots_of r (ss ! k)) < length (roots_of r (ss ! Suc k))
                      \<longleftrightarrow> Suc (Suc k) < length ss)"
  proof (intro allI impI)
    fix k assume kl: "Suc k < length ss"
    then have k1: "k < length ss" by simp
    from B kl show "one_pass r ?a (ss ! k) = Inr (ss ! Suc k)
                 \<and> (\<exists>evs. trace (ss ! Suc k) = trace (ss ! k) @ evs
                          \<and> pass_events (roots_of r (ss ! k)) evs)
                 \<and> prefix (roots_of r (ss ! k)) (roots_of r (ss ! Suc k))
                 \<and> (length (roots_of r (ss ! k)) < length (roots_of r (ss ! Suc k))
                      \<longleftrightarrow> Suc (Suc k) < length ss)"
      unfolding rk [OF k1] rk [OF kl] by blast
  qed
  have D: "\<forall>k<length ss. p_roots (rendererObjs (ss ! k) r) = ?a"
    using pk by blast
  from tx wf' p' rs1 len hd C D show ?thesis
    by (intro exI [of _ ?w'] exI [of _ ss]) (simp add: c)
qed

lemma register_fresh:
  "r \<notin> set (renderers w) \<Longrightarrow> register r w = Inr (w\<lparr>renderers := renderers w @ [r]\<rparr>)"
  by (simp add: register_def assert_def indexOf_notin_iff)

section \<open>The claims\<close>

subsection \<open>C1: attaching a root\<close>




subsection \<open>C2: the root list\<close>



subsection \<open>C3: the sweep at the end of a run loop\<close>

text \<open>Claim C3. Let the sweep of \<open>loopEnd\<close> reach a registered renderer \<open>r\<close> that is not valid
  (every renderer before it in the registry is valid; the registry holds no renderer
  twice, which \<open>register\<close> asserts; the root list of \<open>r\<close> has no duplicates and no
  destroyed root, as C2 shows for the states a renderer reaches between calls). If
  \<open>loops\<close> exceeds the loop limit, \<open>loopEnd\<close> throws the one error "infinite rendering
  invalidation detected", and in the state it leaves \<open>loops\<close> is 0, \<open>r\<close> is destroyed, every
  root it held is destroyed, its root list is empty, it is no longer registered, and
  nothing else happened to the other renderers, to the calls made to the run loop or to
  the settle promise: no later renderer was swept. Otherwise \<open>loopEnd\<close> returns, having
  only added one to \<open>loops\<close> and asked the run loop for one more cycle
  (\<open>backburner.join(null, K)\<close>).\<close>

theorem C3_loopEnd_first_invalid:
  assumes reg: "renderers w = pre @ r # post"
      and dist: "distinct (renderers w)"
      and pre: "\<forall>x\<in>set pre. isValid x w"
      and inv: "\<not> isValid r w"
      and droots: "distinct (roots_of r w)"
      and live: "\<forall>rid\<in>set (roots_of r w). \<not> destroyed (rootStates w rid)"
  shows "(RERENDER_LOOP_LIMIT w < loops w \<longrightarrow>
           (\<exists>w'. loopEnd w = Inl (InfiniteRenderingInvalidation, w')
              \<and> loops w' = 0
              \<and> p_destroyed (rendererObjs w' r)
              \<and> (\<forall>rid\<in>set (roots_of r w). destroyed (rootStates w' rid))
              \<and> roots_of r w' = []
              \<and> r \<notin> set (renderers w') \<and> renderers w' = pre @ post
              \<and> (\<forall>x. x \<noteq> r \<longrightarrow> rendererObjs w' x = rendererObjs w x)
              \<and> hostCalls w' = hostCalls w
              \<and> renderSettledDeferred w' = renderSettledDeferred w))
       \<and> (\<not> RERENDER_LOOP_LIMIT w < loops w \<longrightarrow>
           loopEnd w = Inr (w\<lparr>loops := loops w + 1, hostCalls := hostCalls w @ [Join_K]\<rparr>))"
proof -
  have step: "loopEnd w = loopEnd_for (r # post) w"
    using reg pre by (simp add: loopEnd_def loopEnd_for_skip_valid)
  have rpre: "r \<notin> set pre" and rpost: "r \<notin> set post"
    using reg dist by auto
  have nd: "\<not> p_destroyed (rendererObjs w r)" and ne: "roots_of r w \<noteq> []"
    using inv by (auto simp: isValid_def)
  show ?thesis
  proof (intro conjI impI)
    assume big: "RERENDER_LOOP_LIMIT w < loops w"
    let ?w0 = "w\<lparr>loops := 0\<rparr>"
    let ?w1 = "upd_renderer r (\<lambda>p. p\<lparr>p_destroyed := True\<rparr>) ?w0"
    let ?roots = "arrays w (p_roots (rendererObjs w r))"
    have "distinct ?roots" "\<forall>x\<in>set ?roots. \<not> destroyed (rootStates ?w1 x)"
      using droots live by (simp_all add: roots_of_def)
    from destroy_each_live [OF this] obtain w2 where w2: "destroy_each ?roots ?w1 = Inr w2"
      by blast
    have f2: "arrays w2 = arrays w" "renderers w2 = renderers w" "nextArray w2 = nextArray w"
      "rendererObjs w2 = (rendererObjs w)(r := (rendererObjs w r)\<lparr>p_destroyed := True\<rparr>)"
      using destroy_each_fields [of ?roots ?w1] w2 by simp_all
    have h2: "loops w2 = 0" "hostCalls w2 = hostCalls w"
      "renderSettledDeferred w2 = renderSettledDeferred w"
      using host_state_destroy_each [of ?roots ?w1] w2 by (simp_all add: host_state_def)
    have d2: "destroyed (rootStates w2 x) = (x \<in> set ?roots \<or> destroyed (rootStates w x))" for x
      using destroy_each_destroyed [OF w2, of x] by simp
    let ?w3 = "upd_renderer r (\<lambda>p. p\<lparr>p_removedRoots := [], p_roots := nextArray w2\<rparr>) w2"
    let ?w4 = "?w3\<lparr>arrays := (arrays ?w3)(nextArray ?w3 := []), nextArray := nextArray ?w3 + 1\<rparr>"
    have reg4: "renderers ?w4 = pre @ r # post"
      using reg by (simp add: f2)
    have d: "destroy r ?w0 = Inr (?w4\<lparr>renderers := pre @ post\<rparr>)"
      using nd ne w2 deregister_first [OF reg4 rpre]
      by (simp add: destroy_def clearAllRoots_def roots_of_def Let_def)
    have le: "loopEnd w = Inl (InfiniteRenderingInvalidation, ?w4\<lparr>renderers := pre @ post\<rparr>)"
      using step inv big d by simp
    show "\<exists>w'. loopEnd w = Inl (InfiniteRenderingInvalidation, w')
              \<and> loops w' = 0
              \<and> p_destroyed (rendererObjs w' r)
              \<and> (\<forall>rid\<in>set (roots_of r w). destroyed (rootStates w' rid))
              \<and> roots_of r w' = []
              \<and> r \<notin> set (renderers w') \<and> renderers w' = pre @ post
              \<and> (\<forall>x. x \<noteq> r \<longrightarrow> rendererObjs w' x = rendererObjs w x)
              \<and> hostCalls w' = hostCalls w
              \<and> renderSettledDeferred w' = renderSettledDeferred w"
      apply (rule exI [of _ "?w4\<lparr>renderers := pre @ post\<rparr>"])
      using rpre rpost
      by (simp add: le roots_of_def f2 h2 d2)
  next
    assume "\<not> RERENDER_LOOP_LIMIT w < loops w"
    then show "loopEnd w = Inr (w\<lparr>loops := loops w + 1, hostCalls := hostCalls w @ [Join_K]\<rparr>)"
      using step inv by simp
  qed
qed

text \<open>Witness for C3: one attached root, a write to tracked state, \<open>loops\<close> at 1001 and at
  1000 with the limit at 1000.\<close>

theorem C3_witness:
  "thrown (loopEnd (example_invalid 1001)) = Some InfiniteRenderingInvalidation
   \<and> loops (world_of (loopEnd (example_invalid 1001))) = 0
   \<and> p_destroyed (rendererObjs (world_of (loopEnd (example_invalid 1001))) 0)
   \<and> destroyed (rootStates (world_of (loopEnd (example_invalid 1001))) 0)
   \<and> renderers (world_of (loopEnd (example_invalid 1001))) = []
   \<and> loopEnd (example_invalid 1000)
       = Inr ((example_invalid 1000)\<lparr>loops := 1001, hostCalls := [Join_K]\<rparr>)"
proof -
  have reg: "renderers (example_invalid n) = [] @ 0 # []" for n
    by (simp add: example_invalid_def eval_defs)
  have dist: "distinct (renderers (example_invalid n))" for n
    by (simp add: reg)
  have pre: "\<forall>x\<in>set []. isValid x (example_invalid n)" for n
    by simp
  have inv: "\<not> isValid 0 (example_invalid n)" for n
    by (simp add: example_invalid_def eval_defs)
  have lim: "RERENDER_LOOP_LIMIT (example_invalid n) = 1000" "loops (example_invalid n) = n"
    "hostCalls (example_invalid n) = []" "roots_of 0 (example_invalid n) = [0]" for n
    by (simp_all add: example_invalid_def eval_defs)
  have dr: "distinct (roots_of 0 (example_invalid n))"
    "\<forall>rid\<in>set (roots_of 0 (example_invalid n)). \<not> destroyed (rootStates (example_invalid n) rid)" for n
    by (simp_all add: example_invalid_def eval_defs)
  from C3_loopEnd_first_invalid [OF reg dist pre inv dr, of 1001] lim [of 1001]
  obtain w' where "loopEnd (example_invalid 1001) = Inl (InfiniteRenderingInvalidation, w')"
    "loops w' = 0" "p_destroyed (rendererObjs w' 0)" "destroyed (rootStates w' 0)"
    "renderers w' = []"
    by auto
  moreover
  from C3_loopEnd_first_invalid [OF reg dist pre inv dr, of 1000] lim [of 1000]
  have "loopEnd (example_invalid 1000)
       = Inr ((example_invalid 1000)\<lparr>loops := 1001, hostCalls := [Join_K]\<rparr>)"
    by simp
  ultimately show ?thesis by (simp add: thrown_def)
qed

subsection \<open>C4: validity and the short-circuit of revalidation\<close>

text \<open>Claim C4. \<open>_isValid\<close> is true exactly when the renderer is destroyed, or its root list is
  empty, or the clock has not moved since \<open>_lastRevision\<close>. When the clock has not moved
  since \<open>_lastRevision\<close>, \<open>_revalidate\<close> returns with the state unchanged, so no root was
  rendered, and \<open>rerender\<close> (which only schedules \<open>_revalidate\<close>) renders nothing either.\<close>

theorem C4_isValid_shortcircuit:
  "(isValid r w \<longleftrightarrow>
      p_destroyed (rendererObjs w r) \<or> roots_of r w = []
      \<or> validateTag_CURRENT (p_lastRevision (rendererObjs w r)) w)
   \<and> (validateTag_CURRENT (p_lastRevision (rendererObjs w r)) w \<longrightarrow>
        revalidate r w = Some (Inr w) \<and> trace (rerender r w) = trace w)"
  by (simp add: isValid_def revalidate_def rerender_def scheduleRevalidate_def)

text \<open>Witness for C4: the renderer after one root was attached at revision 5.\<close>

theorem C4_witness:
  "validateTag_CURRENT
     (p_lastRevision (rendererObjs (world_after (appendTo 0 1 [] (example_world True)) (example_world True)) 0))
     (world_after (appendTo 0 1 [] (example_world True)) (example_world True))
   \<and> roots_of 0 (world_after (appendTo 0 1 [] (example_world True)) (example_world True)) = [0]
   \<and> revalidate 0 (world_after (appendTo 0 1 [] (example_world True)) (example_world True))
       = Some (Inr (world_after (appendTo 0 1 [] (example_world True)) (example_world True)))"
proof -
  let ?w = "world_after (appendTo 0 1 [] (example_world True)) (example_world True)"
  have h: "validateTag_CURRENT (p_lastRevision (rendererObjs ?w 0)) ?w"
    by (simp add: eval_defs)
  have r: "roots_of 0 ?w = [0]"
    by (simp add: eval_defs)
  from h r C4_isValid_shortcircuit [of 0 ?w] show ?thesis by blast
qed

subsection \<open>C10: the transaction guard after a throw\<close>

text \<open>Claim C10. If \<open>_renderRoots\<close>, called by \<open>_renderRootsTransaction\<close> with the guard just set,
  throws, then \<open>_renderRootsTransaction\<close> throws the same error, and in the state it leaves
  the guard \<open>_inRenderTransaction\<close> is false again, \<open>_lastRevision\<close> is the current revision
  of the clock, the renderer is valid, and \<open>_revalidate\<close> returns without rendering.\<close>

theorem C10_guard_reset_on_throw:
  assumes "\<not> p_inRenderTransaction (rendererObjs w r)"
      and "renderRoots r (upd_renderer r (\<lambda>p. p\<lparr>p_inRenderTransaction := True\<rparr>) w) = Some (Inl (e, w1))"
  shows "\<exists>w'. renderRootsTransaction r w = Some (Inl (e, w'))
           \<and> \<not> p_inRenderTransaction (rendererObjs w' r)
           \<and> p_lastRevision (rendererObjs w' r) = valueForTag_CURRENT w'
           \<and> isValid r w'
           \<and> revalidate r w' = Some (Inr w')"
  using assms
  by (simp add: renderRootsTransaction_def upd_renderer_def commit_revision_def isValid_def
      revalidate_def valueForTag_CURRENT_def validateTag_CURRENT_def)

text \<open>Witness for C10: a first root whose initial render throws.\<close>

theorem C10_witness:
  "\<not> p_inRenderTransaction (rendererObjs example_throwing 0)
   \<and> map_option thrown (renderRootsTransaction 0 example_throwing) = Some (Some RenderError)
   \<and> \<not> p_inRenderTransaction
         (rendererObjs (world_after (renderRootsTransaction 0 example_throwing) example_throwing) 0)
   \<and> p_lastRevision
         (rendererObjs (world_after (renderRootsTransaction 0 example_throwing) example_throwing) 0) = 5
   \<and> isValid 0 (world_after (renderRootsTransaction 0 example_throwing) example_throwing)"
proof -
  have a: "\<not> p_inRenderTransaction (rendererObjs example_throwing 0)"
    by (simp add: eval_defs)
  have "\<exists>w1. renderRoots 0 (upd_renderer 0 (\<lambda>p. p\<lparr>p_inRenderTransaction := True\<rparr>) example_throwing)
          = Some (Inl (RenderError, w1))"
    by (simp add: eval_defs)
  then obtain w1 where b:
    "renderRoots 0 (upd_renderer 0 (\<lambda>p. p\<lparr>p_inRenderTransaction := True\<rparr>) example_throwing)
       = Some (Inl (RenderError, w1))"
    by blast
  from C10_guard_reset_on_throw [OF a b] obtain w' where
    t: "renderRootsTransaction 0 example_throwing = Some (Inl (RenderError, w'))"
    and g: "\<not> p_inRenderTransaction (rendererObjs w' 0)"
    and l: "p_lastRevision (rendererObjs w' 0) = valueForTag_CURRENT w'"
    and v: "isValid 0 w'"
    by blast
  have r5: "revision w' = 5"
    using t by (auto simp: eval_defs)
  show ?thesis
    using a t g l v r5 by (simp add: world_after_def thrown_def valueForTag_CURRENT_def)
qed

subsection \<open>C6: the settle promise\<close>

text \<open>Claim C6. There is one variable \<open>renderSettledDeferred\<close>, holding at most one deferred.
  \<open>renderSettled\<close> returns the deferred that is there and changes nothing; when there is
  none it creates one, and schedules the no-op \<open>K\<close> on the run loop exactly when no run
  loop is open. \<open>loopEnd\<close> resolves the deferred and clears the variable when every
  registered renderer is valid; when some registered renderer is not valid it leaves the
  variable alone and resolves nothing. \<open>appendTo\<close>, \<open>_revalidate\<close>, \<open>cleanupRootFor\<close> and
  \<open>destroy\<close> never touch the variable and make no call to the run loop.\<close>

theorem C6_settle_signal:
  "(renderSettledDeferred w = Some d \<longrightarrow> renderSettled w = (d, w))
   \<and> (renderSettledDeferred w = None \<longrightarrow>
        fst (renderSettled w) = nextDeferred w
        \<and> renderSettledDeferred (snd (renderSettled w)) = Some (nextDeferred w)
        \<and> hostCalls (snd (renderSettled w))
            = hostCalls w @ (if currentRunLoop w then [] else [Schedule_actions_K]))
   \<and> renderSettledDeferred (snd (renderSettled w)) = Some (fst (renderSettled w))
   \<and> ((\<forall>x\<in>set (renderers w). isValid x w) \<longrightarrow>
        thrown (loopEnd w) = None
        \<and> renderSettledDeferred (world_of (loopEnd w)) = None
        \<and> hostCalls (world_of (loopEnd w))
            = hostCalls w @ (case renderSettledDeferred w of None \<Rightarrow> [] | Some h \<Rightarrow> [Join_resolve h]))
   \<and> ((\<exists>x\<in>set (renderers w). \<not> isValid x w) \<longrightarrow>
        renderSettledDeferred (world_of (loopEnd w)) = renderSettledDeferred w
        \<and> (\<forall>h. Join_resolve h \<in> set (hostCalls (world_of (loopEnd w)))
                 \<longrightarrow> Join_resolve h \<in> set (hostCalls w)))
   \<and> (\<forall>r v s x. appendTo r v s w = Some x \<longrightarrow>
         renderSettledDeferred (world_of x) = renderSettledDeferred w
         \<and> hostCalls (world_of x) = hostCalls w)
   \<and> (\<forall>r x. revalidate r w = Some x \<longrightarrow>
         renderSettledDeferred (world_of x) = renderSettledDeferred w
         \<and> hostCalls (world_of x) = hostCalls w)
   \<and> (\<forall>r v. renderSettledDeferred (world_of (cleanupRootFor r v w)) = renderSettledDeferred w
         \<and> hostCalls (world_of (cleanupRootFor r v w)) = hostCalls w)
   \<and> (\<forall>r. renderSettledDeferred (world_of (destroy r w)) = renderSettledDeferred w
         \<and> hostCalls (world_of (destroy r w)) = hostCalls w)"
proof (intro conjI impI allI)
  assume "renderSettledDeferred w = Some d"
  then show "renderSettled w = (d, w)" by (simp add: renderSettled_def)
next
  assume n: "renderSettledDeferred w = None"
  show "fst (renderSettled w) = nextDeferred w"
    using n by (simp add: renderSettled_def Let_def)
  show "renderSettledDeferred (snd (renderSettled w)) = Some (nextDeferred w)"
    using n by (simp add: renderSettled_def Let_def)
  show "hostCalls (snd (renderSettled w))
            = hostCalls w @ (if currentRunLoop w then [] else [Schedule_actions_K])"
    using n by (simp add: renderSettled_def Let_def)
next
  show "renderSettledDeferred (snd (renderSettled w)) = Some (fst (renderSettled w))"
    by (cases "renderSettledDeferred w") (simp_all add: renderSettled_def Let_def)
next
  assume v: "\<forall>x\<in>set (renderers w). isValid x w"
  have le: "loopEnd w = Inr (resolveRenderPromise (w\<lparr>loops := 0\<rparr>))"
    using v by (simp add: loopEnd_def loopEnd_for_all_valid)
  show "thrown (loopEnd w) = None" by (simp add: le thrown_def)
  show "renderSettledDeferred (world_of (loopEnd w)) = None"
    by (simp add: le world_of_def resolveRenderPromise_def split: option.splits)
  show "hostCalls (world_of (loopEnd w))
            = hostCalls w @ (case renderSettledDeferred w of None \<Rightarrow> [] | Some h \<Rightarrow> [Join_resolve h])"
    by (simp add: le world_of_def resolveRenderPromise_def split: option.splits)
next
  assume i: "\<exists>x\<in>set (renderers w). \<not> isValid x w"
  show "renderSettledDeferred (world_of (loopEnd w)) = renderSettledDeferred w"
    using loopEnd_for_invalid_keeps [OF i] by (simp add: loopEnd_def)
next
  fix h
  assume i: "\<exists>x\<in>set (renderers w). \<not> isValid x w"
    and j: "Join_resolve h \<in> set (hostCalls (world_of (loopEnd w)))"
  show "Join_resolve h \<in> set (hostCalls w)"
    using loopEnd_for_invalid_keeps [OF i] j by (simp add: loopEnd_def)
next
  fix r v s x
  assume "appendTo r v s w = Some x"
  from host_state_appendTo [OF this]
  show "renderSettledDeferred (world_of x) = renderSettledDeferred w"
    and "hostCalls (world_of x) = hostCalls w"
    by (simp_all add: host_state_def)
next
  fix r x
  assume "revalidate r w = Some x"
  from host_state_revalidate [OF this]
  show "renderSettledDeferred (world_of x) = renderSettledDeferred w"
    and "hostCalls (world_of x) = hostCalls w"
    by (simp_all add: host_state_def)
next
  fix r v
  from host_state_cleanupRootFor [of r v w]
  show "renderSettledDeferred (world_of (cleanupRootFor r v w)) = renderSettledDeferred w"
    and "hostCalls (world_of (cleanupRootFor r v w)) = hostCalls w"
    by (simp_all add: host_state_def)
next
  fix r
  from host_state_destroy [of r w]
  show "renderSettledDeferred (world_of (destroy r w)) = renderSettledDeferred w"
    and "hostCalls (world_of (destroy r w)) = hostCalls w"
    by (simp_all add: host_state_def)
qed

text \<open>Witness for C6: \<open>renderSettled\<close> twice in the example process and a sweep that finds
  every renderer valid; then the same with a renderer that is not valid.\<close>

theorem C6_witness:
  "renderSettled (example_world True)
     = (0, (example_world True)\<lparr>renderSettledDeferred := Some 0, nextDeferred := 1,
                                 hostCalls := [Schedule_actions_K]\<rparr>)
   \<and> renderSettled (snd (renderSettled (example_world True)))
       = (0, snd (renderSettled (example_world True)))
   \<and> renderSettledDeferred (world_of (loopEnd (snd (renderSettled (example_world True))))) = None
   \<and> hostCalls (world_of (loopEnd (snd (renderSettled (example_world True)))))
       = [Schedule_actions_K, Join_resolve 0]
   \<and> renderSettledDeferred (world_of (loopEnd (snd (renderSettled (example_invalid 0))))) = Some 0
   \<and> hostCalls (world_of (loopEnd (snd (renderSettled (example_invalid 0)))))
       = [Schedule_actions_K, Join_K]"
proof -
  let ?w = "example_world True"
  let ?w1 = "snd (renderSettled ?w)"
  let ?v1 = "snd (renderSettled (example_invalid 0))"
  have n: "renderSettledDeferred ?w = None" "nextDeferred ?w = 0" "hostCalls ?w = []"
    "\<not> currentRunLoop ?w" "renderers ?w = []"
    by (simp_all add: eval_defs)
  have first: "renderSettled ?w
     = (0, ?w\<lparr>renderSettledDeferred := Some 0, nextDeferred := 1, hostCalls := [Schedule_actions_K]\<rparr>)"
    using n by (simp add: renderSettled_def Let_def)
  have d1: "renderSettledDeferred ?w1 = Some 0" and h1: "hostCalls ?w1 = [Schedule_actions_K]"
    and r1: "renderers ?w1 = []"
    using n by (simp_all add: first)
  have second: "renderSettled ?w1 = (0, ?w1)"
    using C6_settle_signal [of ?w1 0] d1 by blast
  have allv: "\<forall>x\<in>set (renderers ?w1). isValid x ?w1"
    by (simp add: r1)
  from C6_settle_signal [of ?w1 0] allv
  have "renderSettledDeferred (world_of (loopEnd ?w1)) = None"
    and "hostCalls (world_of (loopEnd ?w1))
           = hostCalls ?w1 @ (case renderSettledDeferred ?w1 of None \<Rightarrow> [] | Some h \<Rightarrow> [Join_resolve h])"
    by blast+
  then have third: "renderSettledDeferred (world_of (loopEnd ?w1)) = None"
    and fourth: "hostCalls (world_of (loopEnd ?w1)) = [Schedule_actions_K, Join_resolve 0]"
    by (simp_all add: d1 h1)
  have i: "renderSettledDeferred (example_invalid 0) = None" "nextDeferred (example_invalid 0) = 0"
    "hostCalls (example_invalid 0) = []" "\<not> currentRunLoop (example_invalid 0)"
    "renderers (example_invalid 0) = [0]" "loops (example_invalid 0) = 0"
    "RERENDER_LOOP_LIMIT (example_invalid 0) = 1000"
    "\<not> isValid 0 (example_invalid 0)"
    by (simp_all add: example_invalid_def eval_defs)
  have v1: "?v1 = (example_invalid 0)\<lparr>renderSettledDeferred := Some 0, nextDeferred := 1,
                     hostCalls := [Schedule_actions_K]\<rparr>"
    using i by (simp add: renderSettled_def Let_def)
  have inv1: "\<exists>x\<in>set (renderers ?v1). \<not> isValid x ?v1"
    using i by (simp add: v1 isValid_def roots_of_def validateTag_CURRENT_def)
  from C6_settle_signal [of ?v1 0] inv1
  have "renderSettledDeferred (world_of (loopEnd ?v1)) = renderSettledDeferred ?v1"
    by blast
  then have fifth: "renderSettledDeferred (world_of (loopEnd ?v1)) = Some 0"
    by (simp add: v1)
  have sixth: "hostCalls (world_of (loopEnd ?v1)) = [Schedule_actions_K, Join_K]"
    using i inv1 by (simp add: v1 loopEnd_def)
  from first second third fourth fifth sixth show ?thesis by simp
qed

subsection \<open>C7: the component definition cache\<close>

text \<open>Claim C7, as amended. If \<open>lookupComponent\<close> returns a definition for a name and an owner,
  then a second \<open>lookupComponent\<close> with the same name and owner returns that same
  definition object and changes nothing, so it reports nothing to the instrumentation.
  The definition is cached under the key of the lookup: the factory that \<open>componentFor\<close>
  finds, and if there is none, the template that the template factory of \<open>layoutFor\<close>
  gives for the owner. If the first lookup missed the cache, it reported exactly one start
  and one finish for the name and built a new definition object; if it hit the cache, it
  reported nothing. A lookup that finds nothing changes nothing. A lookup that misses
  the cache for a factory without a class fails the assertion "missing component class"
  after the start was reported: no finish is reported and nothing is cached. No lookup
  that throws caches anything or reports a finish.\<close>

theorem C7_lookupComponent_cached:
  "(\<forall>d res1 m1. lookupComponent g name owner res m = Inr (Some d, res1, m1) \<longrightarrow>
      lookupComponent g name owner res1 m1 = Inr (Some d, res1, m1)
      \<and> (\<exists>k. lookup_key g owner name = Some k
             \<and> (case componentFor name owner of
                   Some factory \<Rightarrow> k = FactoryKey (f_id factory)
                 | None \<Rightarrow> map_option (\<lambda>l. TemplateKey (applyTemplateFactory g l (owner_id owner)))
                             (layoutFor name owner) = Some k)
             \<and> componentDefinitionCache res1 k = Some (Some d)
             \<and> (if componentDefinitionCache res k = None
                 then instrumentation m1
                        = instrumentation m @ [InstrumentStart name, InstrumentFinish name]
                      \<and> d_id d = nextDefinition m
                 else res1 = res \<and> m1 = m)))
   \<and> (\<forall>res1 m1. lookupComponent g name owner res m = Inr (None, res1, m1) \<longrightarrow>
         res1 = res \<and> m1 = m)
   \<and> (\<forall>factory. componentFor name owner = Some factory \<and> f_class factory = None
                  \<and> componentDefinitionCache res (FactoryKey (f_id factory)) = None \<longrightarrow>
         lookupComponent g name owner res m
           = Inl (AssertionFailed (''missing component class '' @ name), res,
                  m\<lparr>instrumentation := instrumentation m @ [InstrumentStart name]\<rparr>))
   \<and> (\<forall>e res1 m1. lookupComponent g name owner res m = Inl (e, res1, m1) \<longrightarrow>
         res1 = res
         \<and> (m1 = m \<or> m1 = m\<lparr>instrumentation := instrumentation m @ [InstrumentStart name]\<rparr>))"
proof (intro conjI)
  show "\<forall>d res1 m1. lookupComponent g name owner res m = Inr (Some d, res1, m1) \<longrightarrow>
      lookupComponent g name owner res1 m1 = Inr (Some d, res1, m1)
      \<and> (\<exists>k. lookup_key g owner name = Some k
             \<and> (case componentFor name owner of
                   Some factory \<Rightarrow> k = FactoryKey (f_id factory)
                 | None \<Rightarrow> map_option (\<lambda>l. TemplateKey (applyTemplateFactory g l (owner_id owner)))
                             (layoutFor name owner) = Some k)
             \<and> componentDefinitionCache res1 k = Some (Some d)
             \<and> (if componentDefinitionCache res k = None
                 then instrumentation m1
                        = instrumentation m @ [InstrumentStart name, InstrumentFinish name]
                      \<and> d_id d = nextDefinition m
                 else res1 = res \<and> m1 = m))"
  proof (intro allI impI)
  fix d res1 m1
  assume first: "lookupComponent g name owner res m = Inr (Some d, res1, m1)"
  then have ld: "lookupComponentDefinition g name owner res m = Inr (Some d, res1, m1)"
    by (auto simp: lookupComponent_def assert_def split: sum.splits option.splits if_splits)
  then obtain pair where pair: "lookupComponentPair g owner name = Some pair"
    by (auto simp: lookupComponentDefinition_def split: option.splits)
  with ld obtain k where k: "cache_key g owner pair = Some k"
    by (auto simp: lookupComponentDefinition_def split: option.splits)
  have key: "lookup_key g owner name = Some k"
    by (simp add: lookup_key_def pair k)
  have kk: "(case componentFor name owner of
               Some factory \<Rightarrow> k = FactoryKey (f_id factory)
             | None \<Rightarrow> map_option (\<lambda>l. TemplateKey (applyTemplateFactory g l (owner_id owner)))
                         (layoutFor name owner) = Some k)"
    using k lookupComponentPair_key(1,2) [OF pair]
    by (auto simp: cache_key_def split: option.splits)
  have "lookupComponent g name owner res1 m1 = Inr (Some d, res1, m1)
        \<and> componentDefinitionCache res1 k = Some (Some d)
        \<and> (if componentDefinitionCache res k = None
            then instrumentation m1
                   = instrumentation m @ [InstrumentStart name, InstrumentFinish name]
                 \<and> d_id d = nextDefinition m
            else res1 = res \<and> m1 = m)"
  proof (cases "componentDefinitionCache res k")
    case (Some c)
    with ld pair k have "c = Some d" "res1 = res" "m1 = m"
      by (auto simp: lookupComponentDefinition_def)
    with Some pair k show ?thesis
      by (simp add: lookupComponent_def lookupComponentDefinition_def)
  next
    case None
    let ?m0 = "m\<lparr>instrumentation := instrumentation m @ [InstrumentStart name]\<rparr>"
    from ld pair k None obtain m2 where
      b: "build_definition g name owner pair ?m0 = Inr (d, m2)" and
      r1: "res1 = res\<lparr>componentDefinitionCache := (componentDefinitionCache res)(k := Some (Some d))\<rparr>"
      and m1: "m1 = m2\<lparr>instrumentation := instrumentation m2 @ [InstrumentFinish name]\<rparr>"
      by (auto simp: lookupComponentDefinition_def Let_def split: sum.splits)
    from build_definition_result [OF b]
    have r2: "m2 = ?m0\<lparr>nextDefinition := nextDefinition ?m0 + 1\<rparr>" and did: "d_id d = nextDefinition m"
      by simp_all
    have c1: "componentDefinitionCache res1 k = Some (Some d)" by (simp add: r1)
    have i1: "instrumentation m1 = instrumentation m @ [InstrumentStart name, InstrumentFinish name]"
      by (simp add: m1 r2)
    have "lookupComponent g name owner res1 m1 = Inr (Some d, res1, m1)"
      using pair k c1 by (simp add: lookupComponent_def lookupComponentDefinition_def)
    with c1 i1 did None show ?thesis by simp
  qed
  with key kk
  show "lookupComponent g name owner res1 m1 = Inr (Some d, res1, m1)
      \<and> (\<exists>k. lookup_key g owner name = Some k
             \<and> (case componentFor name owner of
                   Some factory \<Rightarrow> k = FactoryKey (f_id factory)
                 | None \<Rightarrow> map_option (\<lambda>l. TemplateKey (applyTemplateFactory g l (owner_id owner)))
                             (layoutFor name owner) = Some k)
             \<and> componentDefinitionCache res1 k = Some (Some d)
             \<and> (if componentDefinitionCache res k = None
                 then instrumentation m1
                        = instrumentation m @ [InstrumentStart name, InstrumentFinish name]
                      \<and> d_id d = nextDefinition m
                 else res1 = res \<and> m1 = m))"
    by blast
  qed
next
  show "\<forall>res1 m1. lookupComponent g name owner res m = Inr (None, res1, m1) \<longrightarrow>
         res1 = res \<and> m1 = m"
    by (auto simp: lookupComponent_def lookupComponentDefinition_def assert_def Let_def
        split: sum.splits option.splits if_splits prod.splits)
next
  show "\<forall>factory. componentFor name owner = Some factory \<and> f_class factory = None
                  \<and> componentDefinitionCache res (FactoryKey (f_id factory)) = None \<longrightarrow>
         lookupComponent g name owner res m
           = Inl (AssertionFailed (''missing component class '' @ name), res,
                  m\<lparr>instrumentation := instrumentation m @ [InstrumentStart name]\<rparr>)"
  proof (intro allI impI)
  fix factory
  assume h: "componentFor name owner = Some factory \<and> f_class factory = None
             \<and> componentDefinitionCache res (FactoryKey (f_id factory)) = None"
  then have pair: "lookupComponentPair g owner name = Some (LookupResult (Some factory) (layoutFor name owner))"
    by (simp add: lookupComponentPair_def Let_def)
  show "lookupComponent g name owner res m
           = Inl (AssertionFailed (''missing component class '' @ name), res,
                  m\<lparr>instrumentation := instrumentation m @ [InstrumentStart name]\<rparr>)"
    using h
    by (simp add: lookupComponent_def lookupComponentDefinition_def pair cache_key_def
        build_definition_def assert_def Let_def)
  qed
next
  show "\<forall>e res1 m1. lookupComponent g name owner res m = Inl (e, res1, m1) \<longrightarrow>
         res1 = res
         \<and> (m1 = m \<or> m1 = m\<lparr>instrumentation := instrumentation m @ [InstrumentStart name]\<rparr>)"
  proof (intro allI impI)
    fix e res1 m1
    assume err: "lookupComponent g name owner res m = Inl (e, res1, m1)"
    have "res1 = res"
      using err
      by (auto simp: lookupComponent_def lookupComponentDefinition_def assert_def Let_def
          split: sum.splits option.splits if_splits prod.splits)
    moreover
    have "m1 = m \<or> m1 = m\<lparr>instrumentation := instrumentation m @ [InstrumentStart name]\<rparr>"
      using err
      by (auto simp: lookupComponent_def lookupComponentDefinition_def assert_def Let_def
          dest!: build_definition_error
          split: sum.splits option.splits if_splits prod.splits)
    ultimately
    show "res1 = res
         \<and> (m1 = m \<or> m1 = m\<lparr>instrumentation := instrumentation m @ [InstrumentStart name]\<rparr>)"
      by simp
  qed
qed

text \<open>Witness for C7: \<open>x-foo\<close>, which has the factory number 7, looked up twice with a new
  resolver; and \<open>x-nil\<close>, whose factory has no class.\<close>

theorem C7_witness:
  "map_sum fst (\<lambda>x. map_option d_id (fst x))
      (lookupComponent example_imports ''x-foo'' example_owner new_ResolverImpl
         initial_resolver_module) = Inr (Some 0)
   \<and> map_sum fst (\<lambda>x. instrumentation (snd (snd x)))
      (lookupComponent example_imports ''x-foo'' example_owner new_ResolverImpl
         initial_resolver_module)
       = Inr [InstrumentStart ''x-foo'', InstrumentFinish ''x-foo'']
   \<and> map_sum fst (\<lambda>x. map_option (map_option d_id)
                         (componentDefinitionCache (fst (snd x)) (FactoryKey 7)))
      (lookupComponent example_imports ''x-foo'' example_owner new_ResolverImpl
         initial_resolver_module) = Inr (Some (Some 0))
   \<and> (case lookupComponent example_imports ''x-foo'' example_owner new_ResolverImpl
             initial_resolver_module of
         Inl e \<Rightarrow> False
       | Inr (d, res1, m1) \<Rightarrow>
           lookupComponent example_imports ''x-foo'' example_owner res1 m1 = Inr (d, res1, m1))
   \<and> lookupComponent example_imports ''x-nil'' example_owner new_ResolverImpl
        initial_resolver_module
       = Inl (AssertionFailed ''missing component class x-nil'', new_ResolverImpl,
              initial_resolver_module\<lparr>instrumentation := [InstrumentStart ''x-nil'']\<rparr>)"
proof -
  have "\<exists>d res1 m1. lookupComponent example_imports ''x-foo'' example_owner new_ResolverImpl
                      initial_resolver_module = Inr (Some d, res1, m1)"
    by (simp add: lookupComponent_def lookupComponentDefinition_def lookupComponentPair_def
        cache_key_def build_definition_def componentFor_def layoutFor_def example_imports_def
        example_owner_def new_ResolverImpl_def initial_resolver_module_def assert_def Let_def)
  then obtain d res1 m1 where first:
    "lookupComponent example_imports ''x-foo'' example_owner new_ResolverImpl
       initial_resolver_module = Inr (Some d, res1, m1)"
    by blast
  have miss: "componentDefinitionCache new_ResolverImpl k = None" for k
    by (simp add: new_ResolverImpl_def)
  have cf: "componentFor ''x-foo'' example_owner = Some \<lparr>f_id = 7, f_class = Some 3\<rparr>"
    by (simp add: componentFor_def example_owner_def)
  have cn: "componentFor ''x-nil'' example_owner = Some \<lparr>f_id = 8, f_class = None\<rparr>"
    by (simp add: componentFor_def example_owner_def)
  from C7_lookupComponent_cached
         [of example_imports "''x-foo''" example_owner new_ResolverImpl initial_resolver_module]
       first miss cf
  have second: "lookupComponent example_imports ''x-foo'' example_owner res1 m1 = Inr (Some d, res1, m1)"
    and instr: "instrumentation m1
                  = instrumentation initial_resolver_module
                    @ [InstrumentStart ''x-foo'', InstrumentFinish ''x-foo'']"
    and did: "d_id d = nextDefinition initial_resolver_module"
    and cached: "componentDefinitionCache res1 (FactoryKey 7) = Some (Some d)"
    by auto
  from C7_lookupComponent_cached
         [of example_imports "''x-nil''" example_owner new_ResolverImpl initial_resolver_module]
       miss cn
  have nil: "lookupComponent example_imports ''x-nil'' example_owner new_ResolverImpl
               initial_resolver_module
             = Inl (AssertionFailed (''missing component class '' @ ''x-nil''), new_ResolverImpl,
                    initial_resolver_module\<lparr>instrumentation :=
                      instrumentation initial_resolver_module @ [InstrumentStart ''x-nil'']\<rparr>)"
    by auto
  show ?thesis
    using first second instr did cached nil by (simp add: initial_resolver_module_def)
qed

text \<open>Counterexample to C7 as stated: \<open>component:x-nil\<close> is registered with a factory that has
  no class. The lookup misses the cache, reports the start, and fails the assertion before
  \<open>finalizer()\<close> is reached; nothing is cached, so the second lookup misses the cache
  again and reports a second start. Across the two calls the instrumentation got two
  starts and no finish, not one pair.\<close>

theorem C7_counterexample:
  "lookupComponent example_imports ''x-nil'' example_owner new_ResolverImpl initial_resolver_module
     = Inl (AssertionFailed ''missing component class x-nil'', new_ResolverImpl,
            initial_resolver_module\<lparr>instrumentation := [InstrumentStart ''x-nil'']\<rparr>)
   \<and> lookupComponent example_imports ''x-nil'' example_owner new_ResolverImpl
        (initial_resolver_module\<lparr>instrumentation := [InstrumentStart ''x-nil'']\<rparr>)
     = Inl (AssertionFailed ''missing component class x-nil'', new_ResolverImpl,
            initial_resolver_module\<lparr>instrumentation :=
              [InstrumentStart ''x-nil'', InstrumentStart ''x-nil'']\<rparr>)
   \<and> componentDefinitionCache new_ResolverImpl (FactoryKey 8) = None
   \<and> componentFor ''x-nil'' example_owner = Some \<lparr>f_id = 8, f_class = None\<rparr>"
  by (simp add: lookupComponent_def lookupComponentDefinition_def lookupComponentPair_def
      cache_key_def build_definition_def componentFor_def layoutFor_def example_imports_def
      example_owner_def new_ResolverImpl_def initial_resolver_module_def assert_def Let_def)

subsection \<open>C8: a render function that has thrown\<close>

text \<open>Claim C8, as amended. In a \<open>DEBUG\<close> build (the \<open>render\<close> field holds the wrapper of
  \<open>errorLoopTransaction\<close>): when \<open>root.render()\<close> throws, the root is left with the
  warning-only function, unless it was destroyed during that render; and whenever a root
  holds the warning-only function, \<open>root.render()\<close> returns without an error, does not run
  the VM, only records the warning, and leaves the root as it is.\<close>

theorem C8_debug_failed_render_is_noop:
  assumes wrapped: "render (rootStates w rid) = errorLoopTransaction True fn"
      and alloc: "rid < nextRoot w"
      and throws: "invoke_render r rid w = Inl (e, w1)"
  shows "(render (rootStates w1 rid) = Wrapped WarnNoop \<or> destroyed (rootStates w1 rid))
         \<and> (\<forall>r' w2. render (rootStates w2 rid) = Wrapped WarnNoop \<longrightarrow>
               invoke_render r' rid w2 = Inr (w2\<lparr>trace := trace w2 @ [Warned rid]\<rparr>))"
proof
  from wrapped have slot: "render (rootStates w rid) = Wrapped fn"
    by (simp add: errorLoopTransaction_def)
  with throws obtain w0 where rc: "run_closure fn r rid w = Inl (e, w0)"
    and w1: "w1 = (if render (rootStates w0 rid) = Wrapped fn
                   then upd_root rid (\<lambda>rs. rs\<lparr>render := Wrapped WarnNoop\<rparr>) w0 else w0)"
    by (auto simp: invoke_render_def split: sum.splits)
  from kept_run_closure_throw [OF alloc rc] slot
  have "render (rootStates w0 rid) = Wrapped fn \<or> destroyed (rootStates w0 rid)"
    by (auto simp: kept_def)
  then show "render (rootStates w1 rid) = Wrapped WarnNoop \<or> destroyed (rootStates w1 rid)"
    by (auto simp: w1)
next
  show "\<forall>r' w2. render (rootStates w2 rid) = Wrapped WarnNoop \<longrightarrow>
               invoke_render r' rid w2 = Inr (w2\<lparr>trace := trace w2 @ [Warned rid]\<rparr>)"
    by (simp add: invoke_render_def)
qed

text \<open>Witness for C8: the first render of a root throws in a \<open>DEBUG\<close> build; the next call of
  its \<open>render\<close> only warns.\<close>

theorem C8_witness:
  "render (rootStates example_throwing 0) = errorLoopTransaction True InitialRender
   \<and> 0 < nextRoot example_throwing
   \<and> thrown (invoke_render 0 0 example_throwing) = Some RenderError
   \<and> render (rootStates (world_of (invoke_render 0 0 example_throwing)) 0) = Wrapped WarnNoop
   \<and> thrown (invoke_render 0 0 (world_of (invoke_render 0 0 example_throwing))) = None
   \<and> trace (world_of (invoke_render 0 0 (world_of (invoke_render 0 0 example_throwing))))
       = [Rendered 0, Warned 0]"
proof -
  have a: "render (rootStates example_throwing 0) = errorLoopTransaction True InitialRender"
    by (simp add: eval_defs)
  have b: "0 < nextRoot example_throwing"
    by (simp add: eval_defs)
  have "\<exists>w1. invoke_render 0 0 example_throwing = Inl (RenderError, w1)"
    by (simp add: eval_defs)
  then obtain w1 where c: "invoke_render 0 0 example_throwing = Inl (RenderError, w1)"
    by blast
  have nd: "\<not> destroyed (rootStates w1 0)" and tr: "trace w1 = [Rendered 0]"
    using c by (auto simp: eval_defs)
  from C8_debug_failed_render_is_noop [OF a b c] nd
  have slot: "render (rootStates w1 0) = Wrapped WarnNoop"
    and again: "invoke_render 0 0 w1 = Inr (w1\<lparr>trace := trace w1 @ [Warned 0]\<rparr>)"
    by blast+
  show ?thesis
    using a b c slot again tr by (simp add: thrown_def)
qed

text \<open>Counterexample to C8 as stated: without \<open>DEBUG\<close>, \<open>errorLoopTransaction\<close> returns the
  function it was given. The first render of the root for view 1 throws; when a second
  view is attached, the transaction calls the first root's \<open>render\<close> again, which runs the
  VM again and throws again.\<close>

theorem C8_counterexample:
  "\<not> DEBUG (example_world False)
   \<and> map_option thrown (appendTo 0 1 [[Throw], [Throw]] (example_world False))
       = Some (Some RenderError)
   \<and> map_option thrown
        (appendTo 0 2 []
           (world_after (appendTo 0 1 [[Throw], [Throw]] (example_world False)) (example_world False)))
       = Some (Some RenderError)
   \<and> map_option (\<lambda>x. trace (world_of x))
        (appendTo 0 2 []
           (world_after (appendTo 0 1 [[Throw], [Throw]] (example_world False)) (example_world False)))
       = Some [Rendered 0, Rendered 0]"
  by (simp add: eval_defs)

subsection \<open>C9: built-in helpers\<close>

text \<open>Claim C9 fails on the code for the names of the members of \<open>Object.prototype\<close>. The
  table \<open>BUILTINS_HELPERS\<close> has no entry \<open>toString\<close>, so \<open>toString\<close> is not the name of a
  built-in helper; yet the read \<open>this.builtInHelpers[name]\<close> finds the inherited function.
  With a user helper registered as \<open>helper:toString\<close>, \<open>_lookupHelper\<close> fails the assertion
  about overwriting a built-in helper. Without one it returns the inherited function as
  the helper and the owner is not asked; a name that is neither in the table nor in
  \<open>Object.prototype\<close> is not found there. (\<open>lookupHelper_by_property\<close> says what the code
  does for every name.)\<close>

theorem C9_inherited_member_is_builtin:
  "map_of BUILTINS_HELPERS ''toString'' = None
   \<and> lookupHelper example_imports ''toString''
        (example_owner\<lparr>hasRegistration := (\<lambda>n. n = ''helper:toString'')\<rparr>)
        new_ResolverImpl initial_resolver_module
       = Inl (AssertionFailed (''You attempted to overwrite the built-in helper \"'' @ ''toString''
                   @ ''\" which is not allowed. Please rename the helper.''),
              initial_resolver_module)
   \<and> lookupHelper example_imports ''toString''
        (example_owner\<lparr>hasRegistration := (\<lambda>n. False)\<rparr>)
        new_ResolverImpl initial_resolver_module
       = Inr (Some (BuiltIn (ObjectPrototypeMember ''toString'')), initial_resolver_module)
   \<and> lookupHelper example_imports ''to-string''
        (example_owner\<lparr>hasRegistration := (\<lambda>n. False)\<rparr>)
        new_ResolverImpl initial_resolver_module
       = Inr (None, initial_resolver_module)"
  by (simp add: lookupHelper_def get_property_def BUILTINS_HELPERS_def OBJECT_PROTOTYPE_MEMBERS_def
      new_ResolverImpl_def example_owner_def assert_def)

subsection \<open>C5: registration and the number of roots\<close>

text \<open>Claim C5 fails on the code where the last root is detached. In the example process a
  root is attached for view 1: the renderer has one root and is registered. \<open>cleanupRootFor\<close>
  for view 1 then leaves it with no root and still registered. The next \<open>appendTo\<close> pushes
  its root, finds the list of length one, calls \<open>register\<close>, and fails the assertion
  "Cannot register the same renderer twice"; the new root is in the list and was never
  rendered.\<close>

theorem C5_detach_leaves_registration:
  "map_option thrown (appendTo 0 1 [] (example_world True)) = Some None
   \<and> roots_of 0 (world_after (appendTo 0 1 [] (example_world True)) (example_world True)) = [0]
   \<and> renderers (world_after (appendTo 0 1 [] (example_world True)) (example_world True)) = [0]
   \<and> roots_of 0 example_detached = []
   \<and> renderers example_detached = [0]
   \<and> map_option thrown (appendTo 0 2 [] example_detached)
       = Some (Some (AssertionFailed ''Cannot register the same renderer twice''))
   \<and> map_option (\<lambda>x. roots_of 0 (world_of x)) (appendTo 0 2 [] example_detached) = Some [1]
   \<and> map_option (\<lambda>x. trace (world_of x)) (appendTo 0 2 [] example_detached)
       = Some [Rendered 0, DestroyedResult 0]"
  by (simp add: eval_defs)

end
